theory Spec2Isabelle
  imports Complex_Main "HOL-Library.Word" "HOL-Library.Log_Nat" "HOL-Library.Multiset"
begin

section \<open>Errors\<close>

text \<open>
  The notebooks handle no exception: every failure of a library call ends the running cell.
  Each such failure is a value of this type, and a function that can raise returns
  \<open>py_error + 'a\<close> with \<open>Inl\<close> for the raised exception.
\<close>

datatype py_error =
    FileNotFoundError string
  | UnicodeDecodeError string
  | IndexError
  | ValueError string
  | OSError string
  | DataLossError string
  | InvalidArgumentError string
  | NotADirectoryError string
  | IsADirectoryError string
  | OutOfRangeError
  | NotFoundError string
  | TypeError string

section \<open>The training loop of the split notebook\<close>

text \<open>
  The graph of \<open>split_tutorial.ipynb\<close> has two placeholders, fed by a dictionary on every
  \<open>sess.run\<close>: the dropout keep probability and the flag of the conditional data-source
  switch \<open>tf.cond(is_training, train_iterator.get_next, test_iterator.get_next)\<close>.
\<close>

record feed_dict =
  keep_prob :: rat
  is_training :: bool

definition train_dict :: feed_dict where
  "train_dict = \<lparr>keep_prob = 1 / 2, is_training = True\<rparr>"

definition test_dict :: feed_dict where
  "test_dict = \<lparr>keep_prob = 1, is_training = False\<rparr>"

datatype fetch = loss_op | accuracy_op | train_op | summary_op

text \<open>
  The numeric content of the graph (network, cross-entropy, accuracy, one Adam step) is the
  framework's; it enters as three functions of the current parameters \<open>'p\<close>, the fed
  keep probability and the batch \<open>'b\<close> that was drawn.
\<close>

record ('p, 'b, 'v) graph =
  loss_fn :: "'p \<Rightarrow> rat \<Rightarrow> 'b \<Rightarrow> 'v"
  accuracy_fn :: "'p \<Rightarrow> rat \<Rightarrow> 'b \<Rightarrow> 'v"
  minimize :: "'p \<Rightarrow> rat \<Rightarrow> 'b \<Rightarrow> 'p"

text \<open>The merged summary: the scalars \<open>keep_prob\<close>, \<open>xent\<close> and \<open>accuracy\<close>.\<close>

record 'v summary =
  sum_keep_prob :: rat
  sum_xent :: 'v
  sum_accuracy :: 'v

text \<open>
  The state the training cell works on: the model parameters, the two initialised iterators
  (the batches each still has to give), the two TensorBoard writers and the printed lines.
\<close>

record ('p, 'b, 'v) session =
  params :: 'p
  train_iterator :: "'b list"
  test_iterator :: "'b list"
  train_writer :: "('v summary \<times> nat) list"
  test_writer :: "('v summary \<times> nat) list"
  stdout :: "(string \<times> nat \<times> 'v \<times> 'v) list"

definition get_next :: "'b list \<Rightarrow> py_error + ('b \<times> 'b list)" where
  "get_next it = (case it of [] \<Rightarrow> Inl OutOfRangeError | b # bs \<Rightarrow> Inr (b, bs))"

definition choose_data ::
  "bool \<Rightarrow> ('p, 'b, 'v) session \<Rightarrow> py_error + ('b \<times> ('p, 'b, 'v) session)" where
  "choose_data training s =
     (if training then
        (case get_next (train_iterator s) of
           Inl e \<Rightarrow> Inl e
         | Inr (b, bs) \<Rightarrow> Inr (b, s\<lparr>train_iterator := bs\<rparr>))
      else
        (case get_next (test_iterator s) of
           Inl e \<Rightarrow> Inl e
         | Inr (b, bs) \<Rightarrow> Inr (b, s\<lparr>test_iterator := bs\<rparr>)))"

text \<open>
  One \<open>sess.run(fetches, feed_dict)\<close>: one batch is drawn through the switch, loss and
  accuracy are computed on it, and the parameters change only when \<open>train_op\<close> is among
  the fetches.
\<close>

definition sess_run ::
  "('p, 'b, 'v) graph \<Rightarrow> fetch list \<Rightarrow> feed_dict \<Rightarrow> ('p, 'b, 'v) session \<Rightarrow>
   py_error + (('v \<times> 'v \<times> 'v summary) \<times> ('p, 'b, 'v) session)" where
  "sess_run g fetches fd s =
     (case choose_data (is_training fd) s of
        Inl e \<Rightarrow> Inl e
      | Inr (b, s1) \<Rightarrow>
          (let l = loss_fn g (params s1) (keep_prob fd) b;
               a = accuracy_fn g (params s1) (keep_prob fd) b;
               summ = \<lparr>sum_keep_prob = keep_prob fd, sum_xent = l, sum_accuracy = a\<rparr>;
               s2 = (if train_op \<in> set fetches
                     then s1\<lparr>params := minimize g (params s1) (keep_prob fd) b\<rparr>
                     else s1)
           in Inr ((l, a, summ), s2)))"

definition loop_body ::
  "('p, 'b, 'v) graph \<Rightarrow> nat \<Rightarrow> ('p, 'b, 'v) session \<Rightarrow> py_error + ('p, 'b, 'v) session" where
  "loop_body g epoch s =
     (let check_in = (epoch mod 100 = 0);
          test = (epoch mod 500 = 0)
      in case (if \<not> test then
                 (case sess_run g [loss_op, accuracy_op, train_op, summary_op] train_dict s of
                    Inl e \<Rightarrow> Inl e
                  | Inr ((curr_loss, curr_acc, summ), s') \<Rightarrow>
                      Inr (curr_loss, curr_acc,
                           s'\<lparr>train_writer := train_writer s' @ [(summ, epoch)]\<rparr>))
               else
                 (case sess_run g [loss_op, accuracy_op, summary_op] test_dict s of
                    Inl e \<Rightarrow> Inl e
                  | Inr ((curr_loss, curr_acc, summ), s') \<Rightarrow>
                      Inr (curr_loss, curr_acc,
                           s'\<lparr>test_writer := test_writer s' @ [(summ, epoch)]\<rparr>))) of
           Inl e \<Rightarrow> Inl e
         | Inr (curr_loss, curr_acc, s') \<Rightarrow>
             Inr (if check_in
                  then s'\<lparr>stdout := stdout s' @
                         [(if test then ''Test'' else ''Train'', epoch, curr_loss, curr_acc)]\<rparr>
                  else s'))"

fun for_epochs ::
  "('p, 'b, 'v) graph \<Rightarrow> nat list \<Rightarrow> ('p, 'b, 'v) session \<Rightarrow> py_error + ('p, 'b, 'v) session" where
  "for_epochs g [] s = Inr s"
| "for_epochs g (epoch # rest) s =
     (case loop_body g epoch s of Inl e \<Rightarrow> Inl e | Inr s' \<Rightarrow> for_epochs g rest s')"

definition training_loop ::
  "('p, 'b, 'v) graph \<Rightarrow> nat \<Rightarrow> ('p, 'b, 'v) session \<Rightarrow> py_error + ('p, 'b, 'v) session" where
  "training_loop g iterations s = for_epochs g [0..<iterations + 1] s"

text \<open>
  The run in closed form, for a loop started in state \<open>s\<close> at step 0: how many of the steps
  before step \<open>i\<close> train and how many test, the parameters that step \<open>i\<close> finds, and the
  summary and the printed line that a train step and a test step at \<open>i\<close> produce from the
  batch that is next in their iterator.
\<close>

definition train_steps_before :: "nat \<Rightarrow> nat" where
  "train_steps_before i = length (filter (\<lambda>j. j mod 500 \<noteq> 0) [0..<i])"

definition test_steps_before :: "nat \<Rightarrow> nat" where
  "test_steps_before i = length (filter (\<lambda>j. j mod 500 = 0) [0..<i])"

definition params_at :: "('p, 'b, 'v) graph \<Rightarrow> ('p, 'b, 'v) session \<Rightarrow> nat \<Rightarrow> 'p" where
  "params_at g s i =
     foldl (\<lambda>p b. minimize g p (1 / 2) b) (params s)
       (take (train_steps_before i) (train_iterator s))"

definition train_summary ::
  "('p, 'b, 'v) graph \<Rightarrow> ('p, 'b, 'v) session \<Rightarrow> nat \<Rightarrow> 'v summary" where
  "train_summary g s i =
     \<lparr>sum_keep_prob = 1 / 2,
      sum_xent = loss_fn g (params_at g s i) (1 / 2) (train_iterator s ! train_steps_before i),
      sum_accuracy =
        accuracy_fn g (params_at g s i) (1 / 2) (train_iterator s ! train_steps_before i)\<rparr>"

definition test_summary ::
  "('p, 'b, 'v) graph \<Rightarrow> ('p, 'b, 'v) session \<Rightarrow> nat \<Rightarrow> 'v summary" where
  "test_summary g s i =
     \<lparr>sum_keep_prob = 1,
      sum_xent = loss_fn g (params_at g s i) 1 (test_iterator s ! test_steps_before i),
      sum_accuracy = accuracy_fn g (params_at g s i) 1 (test_iterator s ! test_steps_before i)\<rparr>"

definition printed_line ::
  "('p, 'b, 'v) graph \<Rightarrow> ('p, 'b, 'v) session \<Rightarrow> nat \<Rightarrow> string \<times> nat \<times> 'v \<times> 'v" where
  "printed_line g s i =
     (if i mod 500 = 0
      then (''Test'', i, sum_xent (test_summary g s i), sum_accuracy (test_summary g s i))
      else (''Train'', i, sum_xent (train_summary g s i), sum_accuracy (train_summary g s i)))"

text \<open>A concrete graph and start state, used to run the loop on an example.\<close>

definition example_graph :: "(nat, nat, nat) graph" where
  "example_graph =
     \<lparr>loss_fn = (\<lambda>p k b. p + b), accuracy_fn = (\<lambda>p k b. b), minimize = (\<lambda>p k b. p + 1)\<rparr>"

definition example_session :: "(nat, nat, nat) session" where
  "example_session =
     \<lparr>params = 0, train_iterator = [10, 20], test_iterator = [30],
      train_writer = [], test_writer = [], stdout = []\<rparr>"

section \<open>Variable scopes and the classifier model\<close>

text \<open>
  Graph construction is modelled on shapes: a tensor is its static shape (the batch dimension
  is unknown, \<open>None\<close>, until data flows), and the graph's variable registry is the list of
  the variables created so far, each with its full name and shape, in creation order.
  A construction step takes the registry and returns its result, or the exception it raised,
  with the registry as it stands then.
\<close>

type_synonym tensor_shape = "nat option list"
type_synonym var_store = "(string \<times> nat list) list"

text \<open>Sequencing of construction steps: the first exception ends the construction.\<close>

type_synonym 'a build = "var_store \<Rightarrow> (py_error + 'a) \<times> var_store"

definition then_do :: "'a build \<Rightarrow> ('a \<Rightarrow> 'b build) \<Rightarrow> 'b build" where
  "then_do m f store = (case m store of (Inl e, st) \<Rightarrow> (Inl e, st) | (Inr x, st) \<Rightarrow> f x st)"

definition op_result :: "py_error + 'a \<Rightarrow> 'a build" where
  "op_result r store = (r, store)"

text \<open>
  \<open>tf.get_variable(name, shape, initializer)\<close> inside \<open>with tf.variable_scope(scope)\<close>.
  The notebooks open every scope without \<open>reuse\<close>, so the registry refuses a full name it
  already holds; only then does it look at the shape, which must be fully defined.
\<close>

definition scoped_name :: "string \<Rightarrow> string \<Rightarrow> string" where
  "scoped_name scope name = (if scope = [] then name else scope @ ''/'' @ name)"

definition get_variable :: "string \<Rightarrow> string \<Rightarrow> tensor_shape \<Rightarrow> (nat list) build" where
  "get_variable scope name shp store =
     (let full = scoped_name scope name in
      if full \<in> set (map fst store)
      then (Inl (ValueError (''Variable '' @ full @ '' already exists, disallowed.'')), store)
      else (case those shp of
              None \<Rightarrow> (Inl (ValueError ''Shape of a new variable must be fully defined''), store)
            | Some dims \<Rightarrow> (Inr dims, store @ [(full, dims)])))"

text \<open>
  Shape rules of the framework's operators, as far as the model function uses them:
  \<open>SAME\<close> padding gives \<open>ceil(n / stride)\<close> along each spatial axis.
\<close>

definition same_out :: "nat option \<Rightarrow> nat \<Rightarrow> nat option" where
  "same_out d stride = map_option (\<lambda>n. (n + stride - 1) div stride) d"

fun conv2d :: "tensor_shape \<Rightarrow> nat list \<Rightarrow> nat list \<Rightarrow> py_error + tensor_shape" where
  "conv2d [n, h, w, c] [kh, kw, cin, cout] [s0, s1, s2, s3] =
     (if (c = None \<or> c = Some cin) \<and> s0 = 1 \<and> s3 = 1 \<and> 0 < s1 \<and> 0 < s2
      then Inr [n, same_out h s1, same_out w s2, Some cout]
      else Inl (ValueError ''conv2d: incompatible shapes or strides''))"
| "conv2d imgs k strides = Inl (ValueError ''conv2d: wrong rank'')"

fun bias_add :: "tensor_shape \<Rightarrow> nat list \<Rightarrow> py_error + tensor_shape" where
  "bias_add t [b] =
     (if t \<noteq> [] \<and> (last t = None \<or> last t = Some b \<or> last t = Some 1 \<or> b = 1)
      then Inr (butlast t @ [if b = 1 then last t else Some b])
      else Inl (ValueError ''add: incompatible shapes''))"
| "bias_add t bs = Inl (ValueError ''add: incompatible shapes'')"

definition relu :: "tensor_shape \<Rightarrow> tensor_shape" where
  "relu t = t"

fun max_pool :: "tensor_shape \<Rightarrow> nat list \<Rightarrow> nat list \<Rightarrow> py_error + tensor_shape" where
  "max_pool [n, h, w, c] [k0, k1, k2, k3] [s0, s1, s2, s3] =
     (if s0 = 1 \<and> s3 = 1 \<and> 0 < s1 \<and> 0 < s2
      then Inr [n, same_out h s1, same_out w s2, c]
      else Inl (ValueError ''max_pool: unsupported strides''))"
| "max_pool t ksize strides = Inl (ValueError ''max_pool: wrong rank'')"

text \<open>The helper \<open>conv\<close>, in the variable scope the caller has opened.\<close>

definition conv ::
  "string \<Rightarrow> tensor_shape \<Rightarrow> nat \<Rightarrow> nat \<times> nat \<Rightarrow> nat \<times> nat \<Rightarrow> tensor_shape build" where
  "conv scope imgs filters_out stride_size kernel_size =
     (if length imgs \<le> 3 then op_result (Inl IndexError)
      else
        (let filters_in = imgs ! 3 in
         then_do (get_variable scope ''kernel''
                    [Some (fst kernel_size), Some (snd kernel_size), filters_in, Some filters_out])
           (\<lambda>Kernel.
         then_do (get_variable scope ''bias'' [Some filters_out])
           (\<lambda>Bias.
         then_do (op_result (conv2d imgs Kernel [1, fst stride_size, snd stride_size, 1]))
           (\<lambda>evidence. op_result (bias_add evidence Bias))))))"

definition DESIRED_OUTPUT_SIZE :: nat where
  "DESIRED_OUTPUT_SIZE = 2"

text \<open>
  \<open>final_shape[1] * final_shape[2] * final_shape[3]\<close>, the flattening
  \<open>tf.reshape(a4, [-1, n_elems])\<close> and the dense layer's product.
\<close>

definition n_elems_of :: "tensor_shape \<Rightarrow> py_error + nat" where
  "n_elems_of final_shape =
     (if length final_shape \<le> 3 then Inl IndexError
      else (case (final_shape ! 1, final_shape ! 2, final_shape ! 3) of
              (Some a, Some b, Some c) \<Rightarrow> Inr (a * b * c)
            | _ \<Rightarrow> Inl (TypeError ''unsupported operand type(s) for *: NoneType'')))"

definition reshape_flat :: "tensor_shape \<Rightarrow> nat \<Rightarrow> py_error + tensor_shape" where
  "reshape_flat t n_elems =
     (case those t of
        None \<Rightarrow> Inr [None, Some n_elems]
      | Some dims \<Rightarrow>
          if n_elems = 0 \<or> prod_list dims mod n_elems \<noteq> 0
          then Inl (ValueError ''reshape: size mismatch'')
          else Inr [Some (prod_list dims div n_elems), Some n_elems])"

fun matmul :: "tensor_shape \<Rightarrow> nat list \<Rightarrow> py_error + tensor_shape" where
  "matmul [n, k] [k', m] =
     (if k = None \<or> k = Some k' then Inr [n, Some m]
      else Inl (ValueError ''matmul: incompatible shapes''))"
| "matmul t w = Inl (ValueError ''matmul: wrong rank'')"

text \<open>The model of \<open>celeba_tutorial.ipynb\<close>: four convolutions, one max-pool, one dense layer.\<close>

definition model :: "tensor_shape \<Rightarrow> tensor_shape build" where
  "model image_tensor =
     then_do (conv ''layer1'' image_tensor 16 (2, 2) (5, 5))
       (\<lambda>z1. let a1 = relu z1 in
     then_do (conv ''layer2'' a1 32 (2, 2) (5, 5))
       (\<lambda>z2. let a2 = relu z2 in
     then_do (op_result (max_pool a2 [1, 2, 2, 1] [1, 2, 2, 1]))
       (\<lambda>m2.
     then_do (conv ''layer3'' m2 64 (2, 2) (5, 5))
       (\<lambda>z3. let a3 = relu z3 in
     then_do (conv ''layer4'' a3 64 (2, 2) (5, 5))
       (\<lambda>z4. let a4 = relu z4; final_shape = a4 in
     then_do (op_result (n_elems_of final_shape))
       (\<lambda>n_elems.
     then_do (op_result (reshape_flat a4 n_elems))
       (\<lambda>flat_a4. let d4 = flat_a4 in
     then_do (get_variable ''fully_connected'' ''weights''
                [Some n_elems, Some DESIRED_OUTPUT_SIZE])
       (\<lambda>W.
     then_do (get_variable ''fully_connected'' ''bias'' [Some DESIRED_OUTPUT_SIZE])
       (\<lambda>b.
     then_do (op_result (matmul d4 W))
       (\<lambda>xw. op_result (bias_add xw b)))))))))))"

text \<open>The image batch of the pipeline, as the graph sees it before any data flows.\<close>

definition batch_image_shape :: tensor_shape where
  "batch_image_shape = [None, Some 128, Some 128, Some 3]"

section \<open>Files on disk\<close>

text \<open>
  A NumPy array is a flat buffer with a shape; \<open>tostring()\<close> is the buffer in C order.
\<close>

type_synonym byte = "8 word"
type_synonym bytes = "byte list"

record 'a ndarray =
  shape :: "nat list"
  buffer :: "'a list"

text \<open>
  What the notebooks see of the disk: directories with their listings (in the order
  \<open>os.listdir\<close> gives them) and regular files. A file is the attribute text as \<open>f.read()\<close>
  returns it, an image as \<open>imread\<close> decodes it, or a TFRecord file as the list of its records.
\<close>

datatype file_content =
    Text string
  | Picture "byte ndarray"
  | TFRecords "bytes list"

record file_system =
  directories :: "string \<rightharpoonup> string list"
  files :: "string \<rightharpoonup> file_content"

definition os_listdir :: "file_system \<Rightarrow> string \<Rightarrow> py_error + string list" where
  "os_listdir fs path =
     (case directories fs path of
        Some names \<Rightarrow> Inr names
      | None \<Rightarrow>
          (case files fs path of
             Some c \<Rightarrow> Inl (NotADirectoryError path)
           | None \<Rightarrow> Inl (FileNotFoundError path)))"

definition os_path_isfile :: "file_system \<Rightarrow> string \<Rightarrow> bool" where
  "os_path_isfile fs path = (files fs path \<noteq> None)"

definition os_path_join :: "string \<Rightarrow> string \<Rightarrow> string" where
  "os_path_join a b =
     (if b \<noteq> [] \<and> hd b = CHR ''/'' then b
      else if a = [] \<or> last a = CHR ''/'' then a @ b
      else a @ ''/'' @ b)"

text \<open>
  \<open>os.path.dirname\<close>: what stands before the last slash, without its trailing slashes
  unless it is slashes only.
\<close>

definition os_path_dirname :: "string \<Rightarrow> string" where
  "os_path_dirname p =
     (let head = rev (dropWhile (\<lambda>c. c \<noteq> CHR ''/'') (rev p))
      in if list_all (\<lambda>c. c = CHR ''/'') head then head
         else rev (dropWhile (\<lambda>c. c = CHR ''/'') (rev head)))"

text \<open>\<open>open(path, "r")\<close> followed by \<open>f.read()\<close>.\<close>

definition open_read :: "file_system \<Rightarrow> string \<Rightarrow> py_error + string" where
  "open_read fs path =
     (case files fs path of
        Some (Text s) \<Rightarrow> Inr s
      | Some c \<Rightarrow> Inl (UnicodeDecodeError path)
      | None \<Rightarrow>
          (case directories fs path of
             Some names \<Rightarrow> Inl (IsADirectoryError path)
           | None \<Rightarrow> Inl (FileNotFoundError path)))"

section \<open>Python's string functions\<close>

text \<open>
  \<open>str.splitlines()\<close>: the text is cut at every line boundary (line feed, carriage return,
  the pair of both, vertical tab, form feed, the three separators \<open>0x1C\<close> to \<open>0x1E\<close> and the
  next-line character \<open>0x85\<close>), boundaries are dropped, and a boundary at the very end opens
  no further line.
\<close>

definition is_linebreak :: "char \<Rightarrow> bool" where
  "is_linebreak c \<longleftrightarrow>
     c \<in> set [CHR 0x0A, CHR 0x0B, CHR 0x0C, CHR 0x0D, CHR 0x1C, CHR 0x1D, CHR 0x1E, CHR 0x85]"

fun splitlines_from :: "string \<Rightarrow> string \<Rightarrow> string list" where
  "splitlines_from cur [] = (if cur = [] then [] else [rev cur])"
| "splitlines_from cur [c] = (if is_linebreak c then [rev cur] else [rev (c # cur)])"
| "splitlines_from cur (c # d # cs) =
     (if c = CHR 0x0D \<and> d = CHR 0x0A then rev cur # splitlines_from [] cs
      else if is_linebreak c then rev cur # splitlines_from [] (d # cs)
      else splitlines_from (c # cur) (d # cs))"

definition splitlines :: "string \<Rightarrow> string list" where
  "splitlines s = splitlines_from [] s"

text \<open>
  \<open>s.split(sep)\<close> with a separator: the occurrences of \<open>sep\<close> are found from the left,
  without overlap, and the pieces between them are returned, empty pieces included.
\<close>

fun split_from :: "string \<Rightarrow> string \<Rightarrow> string \<Rightarrow> string list" where
  "split_from sep cur [] = [rev cur]"
| "split_from sep cur (c # cs) =
     (if sep \<noteq> [] \<and> take (length sep) (c # cs) = sep
      then rev cur # split_from sep [] (drop (length sep - 1) cs)
      else split_from sep (c # cur) cs)"

definition str_split :: "string \<Rightarrow> string \<Rightarrow> py_error + string list" where
  "str_split s sep =
     (if sep = [] then Inl (ValueError ''empty separator'') else Inr (split_from sep [] s))"

text \<open>
  \<open>int(s)\<close> on a string: surrounding whitespace is ignored, then an optional sign and
  decimal digits, where single underscores may stand between digits. The whitespace is the
  six blanks of C (space, tab, line feed, vertical tab, form feed, carriage return) and the
  two blanks above \<open>0x7F\<close> that the conversion turns into a space first; the separators
  \<open>0x1C\<close> to \<open>0x1F\<close> are no whitespace here. (The characters of this model, up to \<open>0xFF\<close>,
  hold no decimal digit outside ASCII.)
\<close>

definition is_space :: "char \<Rightarrow> bool" where
  "is_space c \<longleftrightarrow>
     c \<in> set [CHR 0x20, CHR 0x09, CHR 0x0A, CHR 0x0B, CHR 0x0C, CHR 0x0D, CHR 0x85, CHR 0xA0]"

definition str_strip :: "string \<Rightarrow> string" where
  "str_strip s = rev (dropWhile is_space (rev (dropWhile is_space s)))"

definition is_digit :: "char \<Rightarrow> bool" where
  "is_digit c \<longleftrightarrow> c \<in> set ''0123456789''"

definition digit_value :: "char \<Rightarrow> int" where
  "digit_value c = of_char c - 48"

fun digits_ok :: "string \<Rightarrow> bool" where
  "digits_ok [] = False"
| "digits_ok [c] = is_digit c"
| "digits_ok (c # d # cs) =
     (is_digit c \<and> (if d = CHR ''_'' then digits_ok cs else digits_ok (d # cs)))"

definition digits_value :: "string \<Rightarrow> int" where
  "digits_value s = foldl (\<lambda>acc c. 10 * acc + digit_value c) 0 (filter (\<lambda>c. c \<noteq> CHR ''_'') s)"

definition py_int :: "string \<Rightarrow> py_error + int" where
  "py_int s =
     (let t = str_strip s;
          negative = (t \<noteq> [] \<and> hd t = CHR ''-'');
          body = (if t \<noteq> [] \<and> (hd t = CHR ''-'' \<or> hd t = CHR ''+'') then tl t else t)
      in if digits_ok body
         then Inr (if negative then - digits_value body else digits_value body)
         else Inl (ValueError (''invalid literal for int() with base 10: '' @ s)))"

section \<open>The label extractor\<close>

text \<open>\<open>[int(label) for label in lbl_str_split if label is not ""]\<close>: the first bad field raises.\<close>

fun int_fields :: "string list \<Rightarrow> py_error + int list" where
  "int_fields [] = Inr []"
| "int_fields (label # rest) =
     (if label \<noteq> [] then
        (case py_int label of
           Inl e \<Rightarrow> Inl e
         | Inr v \<Rightarrow> (case int_fields rest of Inl e \<Rightarrow> Inl e | Inr vs \<Rightarrow> Inr (v # vs)))
      else int_fields rest)"

definition int_of_bool :: "bool \<Rightarrow> int" where
  "int_of_bool b = (if b then 1 else 0)"

text \<open>The body of the loop over the attribute lines: one line to one label.\<close>

definition label_of_line :: "string \<Rightarrow> py_error + int list" where
  "label_of_line fname_and_lbl =
     (case str_split fname_and_lbl ''.jpg'' of
        Inl e \<Rightarrow> Inl e
      | Inr parts \<Rightarrow>
          if length parts \<le> 1 then Inl IndexError
          else
            (let lbl_str = parts ! 1 in
             case str_split lbl_str '' '' of
               Inl e \<Rightarrow> Inl e
             | Inr lbl_str_split \<Rightarrow>
                 (case int_fields lbl_str_split of
                    Inl e \<Rightarrow> Inl e
                  | Inr all_labels \<Rightarrow>
                      if length all_labels \<le> 20 then Inl IndexError
                      else
                        (let is_male = (all_labels ! 20 = 1)
                         in Inr [int_of_bool is_male, int_of_bool (\<not> is_male)]))))"

fun labels_of_lines :: "string list \<Rightarrow> int list list \<Rightarrow> py_error + int list list" where
  "labels_of_lines [] labels = Inr labels"
| "labels_of_lines (fname_and_lbl # rest) labels =
     (case label_of_line fname_and_lbl of
        Inl e \<Rightarrow> Inl e
      | Inr label \<Rightarrow> labels_of_lines rest (labels @ [label]))"

definition read_labeled_image_list ::
  "file_system \<Rightarrow> string \<Rightarrow> string \<Rightarrow> py_error + (string list \<times> int list list)" where
  "read_labeled_image_list fs img_dir label_txt_path =
     (case os_listdir fs img_dir of
        Inl e \<Rightarrow> Inl e
      | Inr img_filenames \<Rightarrow>
          (let abs_img_paths = map (os_path_join img_dir) img_filenames in
           case open_read fs label_txt_path of
             Inl e \<Rightarrow> Inl e
           | Inr text \<Rightarrow>
               (let img_fnames_and_lbls = splitlines text in
                case labels_of_lines (drop 2 img_fnames_and_lbls) [] of
                  Inl e \<Rightarrow> Inl e
                | Inr labels \<Rightarrow> Inr (abs_img_paths, labels))))"

definition IMG_DIR :: string where
  "IMG_DIR = ''/media/dylan/DATA/img_align_celeba''"

definition LABEL_TXT_PATH :: string where
  "LABEL_TXT_PATH = ''/media/dylan/DATA/list_attr_celeba.txt''"

text \<open>Whether \<open>sep\<close> occurs in \<open>s\<close> (Python's \<open>sep in s\<close>).\<close>

fun has_substring :: "string \<Rightarrow> string \<Rightarrow> bool" where
  "has_substring sep [] = (sep = [])"
| "has_substring sep (c # cs) = (take (length sep) (c # cs) = sep \<or> has_substring sep cs)"

text \<open>
  The attribute fields of a line, as the extractor cuts them: the non-empty pieces between
  blanks of what follows the first \<open>.jpg\<close>, up to the next \<open>.jpg\<close> if there is one.
\<close>

definition attribute_fields :: "string \<Rightarrow> string list" where
  "attribute_fields line =
     filter (\<lambda>label. label \<noteq> []) (split_from '' '' [] (split_from ''.jpg'' [] line ! 1))"

section \<open>Serialized records\<close>

text \<open>
  The record of one sample is a \<open>tf.train.Example\<close>: a map from feature names to features,
  where a feature is a list of byte strings, of floats or of 64-bit integers, or has no kind
  set. The notebooks never look inside a float list, which is kept as its packed bytes.
  The map is kept as the list of its entries; the last entry of a name is the one that counts.
\<close>

datatype feature = BytesList "bytes list" | FloatList bytes | Int64List "int list" | KindNotSet

type_synonym example = "(string \<times> feature) list"

text \<open>The helpers of \<open>make_tfr\<close>. An \<open>Int64List\<close> refuses a value outside 64 bits.\<close>

definition fits_int64 :: "int \<Rightarrow> bool" where
  "fits_int64 v \<longleftrightarrow> - (2 ^ 63) \<le> v \<and> v < 2 ^ 63"

definition int64_list_feature :: "int list \<Rightarrow> py_error + feature" where
  "int64_list_feature a_list =
     (if list_all fits_int64 a_list then Inr (Int64List a_list)
      else Inl (ValueError ''Value out of range''))"

definition bytes_feature :: "bytes \<Rightarrow> feature" where
  "bytes_feature value = BytesList [value]"

subsection \<open>The wire format\<close>

text \<open>
  \<open>SerializeToString\<close> writes protocol-buffer wire format. A base-128 varint carries seven
  bits per byte, low group first, with the top bit set on every byte but the last; a
  length-delimited field is its key \<open>8 * field + 2\<close>, the payload's length and the payload.
\<close>

fun varint :: "nat \<Rightarrow> bytes" where
  "varint n = (if n < 128 then [of_nat n] else of_nat (n mod 128 + 128) # varint (n div 128))"

declare varint.simps [simp del]

definition len_delimited :: "nat \<Rightarrow> bytes \<Rightarrow> bytes" where
  "len_delimited field payload = varint (8 * field + 2) @ varint (length payload) @ payload"

definition utf8 :: "string \<Rightarrow> bytes" where
  "utf8 s = map (\<lambda>c. of_nat (of_char c)) s"

text \<open>An \<open>int64\<close> goes out as the varint of its 64-bit two's complement.\<close>

definition int64_bits :: "int \<Rightarrow> nat" where
  "int64_bits v = nat (v mod 2 ^ 64)"

definition encode_bytes_list :: "bytes list \<Rightarrow> bytes" where
  "encode_bytes_list vs = concat (map (len_delimited 1) vs)"

definition encode_float_list :: "bytes \<Rightarrow> bytes" where
  "encode_float_list packed = (if packed = [] then [] else len_delimited 1 packed)"

definition encode_int64_list :: "int list \<Rightarrow> bytes" where
  "encode_int64_list vs =
     (if vs = [] then [] else len_delimited 1 (concat (map (\<lambda>v. varint (int64_bits v)) vs)))"

definition encode_feature :: "feature \<Rightarrow> bytes" where
  "encode_feature f =
     (case f of
        BytesList vs \<Rightarrow> len_delimited 1 (encode_bytes_list vs)
      | FloatList packed \<Rightarrow> len_delimited 2 (encode_float_list packed)
      | Int64List vs \<Rightarrow> len_delimited 3 (encode_int64_list vs)
      | KindNotSet \<Rightarrow> [])"

definition encode_entry :: "string \<times> feature \<Rightarrow> bytes" where
  "encode_entry kv = len_delimited 1 (utf8 (fst kv)) @ len_delimited 2 (encode_feature (snd kv))"

text \<open>
  The entries of the map go out in an order of the serializer's own, which is not the order
  in which the dictionary was written down. It is given by a rank on the feature names: the
  entries are written by ascending rank.
\<close>

type_synonym entry_rank = "string \<Rightarrow> nat"

definition wire_order :: "entry_rank \<Rightarrow> example \<Rightarrow> example" where
  "wire_order rank ex = sort_key (\<lambda>kv. rank (fst kv)) ex"

definition encode_features :: "example \<Rightarrow> bytes" where
  "encode_features ex = concat (map (len_delimited 1) (map encode_entry ex))"

definition SerializeToString :: "entry_rank \<Rightarrow> example \<Rightarrow> bytes" where
  "SerializeToString rank ex = len_delimited 1 (encode_features (wire_order rank ex))"

text \<open>
  Reading the wire format back. A message is first cut into its fields, whatever their
  numbers and order; fixed-width fields are carried along so that they can be passed over.
\<close>

fun read_varint :: "bytes \<Rightarrow> (nat \<times> bytes) option" where
  "read_varint [] = None"
| "read_varint (b # bs) =
     (if unat b < 128 then Some (unat b, bs)
      else (case read_varint bs of
              None \<Rightarrow> None
            | Some (n, rest) \<Rightarrow> Some (unat b - 128 + 128 * n, rest)))"

datatype wire_value = Varint nat | LengthDelimited bytes | Fixed nat bytes

text \<open>One field from the front of a message: its number, its value and what follows.\<close>

definition read_field :: "bytes \<Rightarrow> ((nat \<times> wire_value) \<times> bytes) option" where
  "read_field bs =
     (case read_varint bs of
        None \<Rightarrow> None
      | Some (key, rest) \<Rightarrow>
          (let field = key div 8; wire_type = key mod 8 in
           if field = 0 then None
           else if wire_type = 0 then
             (case read_varint rest of
                None \<Rightarrow> None
              | Some (v, rest') \<Rightarrow> Some ((field, Varint v), rest'))
           else if wire_type = 2 then
             (case read_varint rest of
                None \<Rightarrow> None
              | Some (n, rest') \<Rightarrow>
                  if length rest' < n then None
                  else Some ((field, LengthDelimited (take n rest')), drop n rest'))
           else if wire_type = 1 then
             (if length rest < 8 then None
              else Some ((field, Fixed 8 (take 8 rest)), drop 8 rest))
           else if wire_type = 5 then
             (if length rest < 4 then None
              else Some ((field, Fixed 4 (take 4 rest)), drop 4 rest))
           else None))"

function parse_fields :: "bytes \<Rightarrow> (nat \<times> wire_value) list option" where
  "parse_fields bs =
     (if bs = [] then Some []
      else (case read_field bs of
              None \<Rightarrow> None
            | Some (fv, rest) \<Rightarrow>
                (case parse_fields rest of None \<Rightarrow> None | Some fvs \<Rightarrow> Some (fv # fvs))))"
  by pat_completeness auto
termination
proof (relation "measure length")
  show "wf (measure length)"
    by simp
next
  fix bs :: bytes and x fv rest
  assume "bs \<noteq> []" and "read_field bs = Some x" and "(fv, rest) = x"
  then have field: "read_field bs = Some (fv, rest)"
    by simp
  have varint_shorter: "length r < length b" if "read_varint b = Some (n, r)" for b n r
    using that by (induction b arbitrary: n r) (auto split: if_splits option.splits)
  from field have "length rest < length bs"
    by (auto simp: read_field_def Let_def split: option.splits if_splits
        dest!: varint_shorter; arith)
  then show "(rest, bs) \<in> measure length"
    by simp
qed

declare parse_fields.simps [simp del]

text \<open>The payloads of the length-delimited occurrences of one field, in order.\<close>

definition payloads_of :: "nat \<Rightarrow> (nat \<times> wire_value) list \<Rightarrow> bytes list" where
  "payloads_of field fvs =
     concat (map (\<lambda>fv. case fv of
                          (f, LengthDelimited p) \<Rightarrow> (if f = field then [p] else [])
                        | _ \<Rightarrow> []) fvs)"

function read_varints :: "bytes \<Rightarrow> nat list option" where
  "read_varints bs =
     (if bs = [] then Some []
      else (case read_varint bs of
              None \<Rightarrow> None
            | Some (n, rest) \<Rightarrow>
                (case read_varints rest of None \<Rightarrow> None | Some ns \<Rightarrow> Some (n # ns))))"
  by pat_completeness auto
termination
proof (relation "measure length")
  show "wf (measure length)"
    by simp
next
  fix bs :: bytes and x n rest
  assume "bs \<noteq> []" and "read_varint bs = Some x" and "(n, rest) = x"
  then have first: "read_varint bs = Some (n, rest)"
    by simp
  have "length r < length b" if "read_varint b = Some (k, r)" for b k r
    using that by (induction b arbitrary: k r) (auto split: if_splits option.splits)
  from this [OF first] show "(rest, bs) \<in> measure length"
    by simp
qed

declare read_varints.simps [simp del]

definition to_int64 :: "nat \<Rightarrow> int" where
  "to_int64 n = (let m = int n mod 2 ^ 64 in if m < 2 ^ 63 then m else m - 2 ^ 64)"

definition from_utf8 :: "bytes \<Rightarrow> string" where
  "from_utf8 bs = map (\<lambda>b. char_of (unat b)) bs"

text \<open>
  The typed messages. An embedded message that occurs several times is merged, which is the
  message read from the concatenated payloads; of a string field the last occurrence counts;
  in the \<open>oneof\<close> of a feature the kind that occurs last counts, merged over its trailing run.
\<close>

definition decode_bytes_list :: "bytes \<Rightarrow> bytes list option" where
  "decode_bytes_list payload = map_option (payloads_of 1) (parse_fields payload)"

definition decode_float_list :: "bytes \<Rightarrow> bytes option" where
  "decode_float_list payload =
     map_option
       (\<lambda>fvs. concat (map (\<lambda>fv. case fv of
                                    (f, LengthDelimited p) \<Rightarrow> (if f = 1 then p else [])
                                  | (f, Fixed w bs) \<Rightarrow> (if f = 1 \<and> w = 4 then bs else [])
                                  | _ \<Rightarrow> []) fvs))
       (parse_fields payload)"

definition int64_values :: "nat \<times> wire_value \<Rightarrow> int list option" where
  "int64_values fv =
     (case fv of
        (f, Varint v) \<Rightarrow> Some (if f = 1 then [to_int64 v] else [])
      | (f, LengthDelimited p) \<Rightarrow>
          (if f = 1 then map_option (map to_int64) (read_varints p) else Some [])
      | _ \<Rightarrow> Some [])"

definition decode_int64_list :: "bytes \<Rightarrow> int list option" where
  "decode_int64_list payload =
     (case parse_fields payload of
        None \<Rightarrow> None
      | Some fvs \<Rightarrow> map_option concat (those (map int64_values fvs)))"

definition kind_fields :: "(nat \<times> wire_value) list \<Rightarrow> (nat \<times> bytes) list" where
  "kind_fields fvs =
     concat (map (\<lambda>fv. case fv of
                          (f, LengthDelimited p) \<Rightarrow> (if f \<in> {1, 2, 3} then [(f, p)] else [])
                        | _ \<Rightarrow> []) fvs)"

definition decode_feature :: "bytes \<Rightarrow> feature option" where
  "decode_feature payload =
     (case parse_fields payload of
        None \<Rightarrow> None
      | Some fvs \<Rightarrow>
          (let kinds = kind_fields fvs in
           if kinds = [] then Some KindNotSet
           else
             (let k = fst (last kinds);
                  merged = concat (map snd (rev (takeWhile (\<lambda>fp. fst fp = k) (rev kinds))))
              in if k = 1 then map_option BytesList (decode_bytes_list merged)
                 else if k = 2 then map_option FloatList (decode_float_list merged)
                 else map_option Int64List (decode_int64_list merged))))"

definition decode_entry :: "bytes \<Rightarrow> (string \<times> feature) option" where
  "decode_entry payload =
     (case parse_fields payload of
        None \<Rightarrow> None
      | Some fvs \<Rightarrow>
          (let keys = payloads_of 1 fvs;
               key = (if keys = [] then [] else last keys)
           in map_option (\<lambda>f. (from_utf8 key, f)) (decode_feature (concat (payloads_of 2 fvs)))))"

definition decode_features :: "bytes \<Rightarrow> example option" where
  "decode_features payload =
     (case parse_fields payload of
        None \<Rightarrow> None
      | Some fvs \<Rightarrow> those (map decode_entry (payloads_of 1 fvs)))"

definition ParseFromString :: "bytes \<Rightarrow> example option" where
  "ParseFromString serialized =
     (case parse_fields serialized of
        None \<Rightarrow> None
      | Some fvs \<Rightarrow> decode_features (concat (payloads_of 1 fvs)))"

text \<open>A feature that \<open>SerializeToString\<close> writes without loss: its integers fit 64 bits.\<close>

definition feature_fits :: "feature \<Rightarrow> bool" where
  "feature_fits f = (case f of Int64List vs \<Rightarrow> list_all fits_int64 vs | _ \<Rightarrow> True)"

section \<open>The record writer\<close>

text \<open>
  The machine the cells run on: the disk and what has been printed. A printed entry is a
  whole line, or the status \<open>Writing file n\<close> that ends in a carriage return.
\<close>

datatype printed = Line string | Status nat

record machine =
  disk :: file_system
  console :: "printed list"

definition print :: "printed \<Rightarrow> machine \<Rightarrow> machine" where
  "print p m = m\<lparr>console := console m @ [p]\<rparr>"

text \<open>\<open>imread(path)\<close>: the decoded picture, a \<open>uint8\<close> array.\<close>

definition imread :: "file_system \<Rightarrow> string \<Rightarrow> py_error + byte ndarray" where
  "imread fs path =
     (case files fs path of
        Some (Picture im) \<Rightarrow> Inr im
      | Some c \<Rightarrow> Inl (OSError (''cannot identify image file '' @ path))
      | None \<Rightarrow>
          (case directories fs path of
             Some names \<Rightarrow> Inl (IsADirectoryError path)
           | None \<Rightarrow> Inl (FileNotFoundError path)))"

definition tostring :: "byte ndarray \<Rightarrow> bytes" where
  "tostring a = buffer a"

text \<open>
  \<open>tf.python_io.TFRecordWriter(path)\<close> creates the file, or empties the one that is there;
  \<open>writer.write(record)\<close> appends one record. The writer does not create the folder of
  the file: where that is missing, opening fails (the behaviour on Linux that the notebook
  warns of). A path without a folder part is in the working directory, which exists.
\<close>

definition folder_exists :: "file_system \<Rightarrow> string \<Rightarrow> bool" where
  "folder_exists fs path =
     (let folder = os_path_dirname path
      in list_all (\<lambda>c. c = CHR ''/'') folder \<or> directories fs folder \<noteq> None)"

definition TFRecordWriter :: "string \<Rightarrow> file_system \<Rightarrow> py_error + file_system" where
  "TFRecordWriter path fs =
     (if \<not> folder_exists fs path then Inl (NotFoundError path)
      else
        (case directories fs path of
           Some names \<Rightarrow> Inl (IsADirectoryError path)
         | None \<Rightarrow> Inr (fs\<lparr>files := (files fs)(path \<mapsto> TFRecords [])\<rparr>)))"

definition records_of :: "file_system \<Rightarrow> string \<Rightarrow> bytes list" where
  "records_of fs path = (case files fs path of Some (TFRecords rs) \<Rightarrow> rs | _ \<Rightarrow> [])"

definition writer_write :: "string \<Rightarrow> bytes \<Rightarrow> file_system \<Rightarrow> file_system" where
  "writer_write path record fs =
     fs\<lparr>files := (files fs)(path \<mapsto> TFRecords (records_of fs path @ [record]))\<rparr>"

text \<open>The \<open>Example\<close> that the loop of \<open>make_tfr\<close> builds from the raw image and the label.\<close>

definition tfr_example :: "bytes \<Rightarrow> int list \<Rightarrow> py_error + example" where
  "tfr_example raw_im label =
     (let image_raw = bytes_feature raw_im in
      case int64_list_feature label of
        Inl e \<Rightarrow> Inl e
      | Inr label_feature \<Rightarrow> Inr [(''image_raw'', image_raw), (''label'', label_feature)])"

text \<open>
  The loop of \<open>make_tfr\<close> over the zipped pairs, from counter \<open>n\<close> on. The resize of the
  image library is a parameter: \<open>resize disk_im (128, 128)\<close>; so is the serializer's rank of
  the feature names.
\<close>

type_synonym resizer = "byte ndarray \<Rightarrow> nat \<times> nat \<Rightarrow> py_error + byte ndarray"

fun write_samples ::
  "resizer \<Rightarrow> entry_rank \<Rightarrow> string \<Rightarrow> nat \<Rightarrow> (string \<times> int list) list \<Rightarrow> machine \<Rightarrow> (py_error + unit) \<times> machine" where
  "write_samples resize rank tfr_file n [] m = (Inr (), m)"
| "write_samples resize rank tfr_file n ((path, label) # rest) m =
     (let m1 = print (Status n) m in
      case imread (disk m1) path of
        Inl e \<Rightarrow> (Inl e, m1)
      | Inr disk_im \<Rightarrow>
          (case resize disk_im (128, 128) of
             Inl e \<Rightarrow> (Inl e, m1)
           | Inr resized_im \<Rightarrow>
               (let raw_im = tostring resized_im in
                case tfr_example raw_im label of
                  Inl e \<Rightarrow> (Inl e, m1)
                | Inr example \<Rightarrow>
                    (let serialized = SerializeToString rank example;
                         m2 = m1\<lparr>disk := writer_write tfr_file serialized (disk m1)\<rparr>
                     in write_samples resize rank tfr_file (n + 1) rest m2))))"

definition make_tfr ::
  "resizer \<Rightarrow> entry_rank \<Rightarrow> string list \<Rightarrow> int list list \<Rightarrow> string \<Rightarrow> machine \<Rightarrow> (py_error + unit) \<times> machine" where
  "make_tfr resize rank all_image_paths all_labels tfr_file m =
     (let m1 = print (Line ''Writing TFR files.'') m in
      case TFRecordWriter tfr_file (disk m1) of
        Inl e \<Rightarrow> (Inl e, m1)
      | Inr fs \<Rightarrow>
          (case write_samples resize rank tfr_file 0 (zip all_image_paths all_labels) (m1\<lparr>disk := fs\<rparr>) of
             (Inl e, m2) \<Rightarrow> (Inl e, m2)
           | (Inr u, m2) \<Rightarrow> (Inr (), print (Line (CHR 0x0A # ''Done.'')) m2)))"

section \<open>The writer cells\<close>

text \<open>
  A notebook is the machine together with the two global names the writer cell binds.
\<close>

record notebook =
  machine :: machine
  all_image_paths :: "string list option"
  all_labels :: "int list list option"

definition TFR_FILE :: string where
  "TFR_FILE = ''/media/dylan/DATA/tfr/celeba_tutorial''"

text \<open>The body of the \<open>if\<close> of the writer cell of \<open>celeba_tutorial.ipynb\<close>.\<close>

definition write_path :: "resizer \<Rightarrow> entry_rank \<Rightarrow> notebook \<Rightarrow> (py_error + unit) \<times> notebook" where
  "write_path resize rank nb =
     (case read_labeled_image_list (disk (machine nb)) IMG_DIR LABEL_TXT_PATH of
        Inl e \<Rightarrow> (Inl e, nb)
      | Inr (paths, labels) \<Rightarrow>
          (let nb1 = nb\<lparr>all_image_paths := Some paths, all_labels := Some labels\<rparr> in
           case make_tfr resize rank paths labels TFR_FILE (machine nb1) of
             (r, m) \<Rightarrow> (r, nb1\<lparr>machine := m\<rparr>)))"

definition writer_cell :: "resizer \<Rightarrow> entry_rank \<Rightarrow> bool \<Rightarrow> notebook \<Rightarrow> (py_error + unit) \<times> notebook" where
  "writer_cell resize rank write_tfr nb =
     (if write_tfr \<or> \<not> os_path_isfile (disk (machine nb)) TFR_FILE
      then write_path resize rank nb
      else (Inr (), nb))"

text \<open>
  The writer cell of \<open>split_tutorial.ipynb\<close>. The random split of scikit-learn is a
  parameter; it returns the train and test paths and the train and test labels.
\<close>

type_synonym splitter =
  "string list \<Rightarrow> int list list \<Rightarrow>
   py_error + (string list \<times> string list \<times> int list list \<times> int list list)"

record split_notebook = notebook +
  tr_paths :: "string list option"
  te_paths :: "string list option"
  tr_lbls :: "int list list option"
  te_lbls :: "int list list option"

definition TFR_TRAIN :: string where
  "TFR_TRAIN = ''/media/dylan/DATA/tfr/celeba_train''"

definition TFR_TEST :: string where
  "TFR_TEST = ''/media/dylan/DATA/tfr/celeba_test''"

definition split_write_path ::
  "resizer \<Rightarrow> entry_rank \<Rightarrow> splitter \<Rightarrow> split_notebook \<Rightarrow> (py_error + unit) \<times> split_notebook" where
  "split_write_path resize rank train_test_split nb =
     (case read_labeled_image_list (disk (machine nb)) IMG_DIR LABEL_TXT_PATH of
        Inl e \<Rightarrow> (Inl e, nb)
      | Inr (paths, labels) \<Rightarrow>
          (let nb1 = nb\<lparr>all_image_paths := Some paths, all_labels := Some labels\<rparr> in
           case train_test_split paths labels of
             Inl e \<Rightarrow> (Inl e, nb1)
           | Inr (trp, tep, trl, tel) \<Rightarrow>
               (let nb2 = nb1\<lparr>tr_paths := Some trp, te_paths := Some tep,
                               tr_lbls := Some trl, te_lbls := Some tel\<rparr> in
                case make_tfr resize rank trp trl TFR_TRAIN (machine nb2) of
                  (Inl e, m) \<Rightarrow> (Inl e, nb2\<lparr>machine := m\<rparr>)
                | (Inr u, m) \<Rightarrow>
                    (case make_tfr resize rank tep tel TFR_TEST m of
                       (r, m') \<Rightarrow> (r, nb2\<lparr>machine := m'\<rparr>)))))"

definition split_writer_cell ::
  "resizer \<Rightarrow> entry_rank \<Rightarrow> splitter \<Rightarrow> bool \<Rightarrow> split_notebook \<Rightarrow> (py_error + unit) \<times> split_notebook" where
  "split_writer_cell resize rank train_test_split write_tfr nb =
     (if write_tfr \<or> \<not> os_path_isfile (disk (machine nb)) TFR_TRAIN
           \<or> \<not> os_path_isfile (disk (machine nb)) TFR_TEST
      then split_write_path resize rank train_test_split nb
      else (Inr (), nb))"



section \<open>Single-precision arithmetic\<close>

text \<open>
  The tensors of the pipeline hold \<open>float32\<close> values. A finite float is the rational number
  it stands for, and every operation returns the exact result rounded to the nearest float
  of the format, ties to the even mantissa: \<open>p\<close> bits of precision and normal exponents
  from \<open>emin\<close> up (24 and -126 for \<open>float32\<close>, 53 and -1022 for Python's \<open>float\<close>).
  Infinities and NaN are not modelled.
\<close>

definition pow2 :: "int \<Rightarrow> rat" where
  "pow2 e = 2 powi e"

text \<open>The exponent \<open>e\<close> with \<open>2 ^ e \<le> x < 2 ^ (e + 1)\<close>, for positive \<open>x\<close>.\<close>

definition ilog2 :: "rat \<Rightarrow> int" where
  "ilog2 x =
     (let (p, q) = quotient_of x;
          d = int (floorlog 2 (nat p)) - int (floorlog 2 (nat q))
      in if pow2 d \<le> x then d else d - 1)"

definition round_half_even :: "rat \<Rightarrow> int" where
  "round_half_even q =
     (let f = \<lfloor>q\<rfloor>; r = q - of_int f
      in if r < 1 / 2 then f
         else if 1 / 2 < r then f + 1
         else if even f then f else f + 1)"

definition round_binary :: "nat \<Rightarrow> int \<Rightarrow> rat \<Rightarrow> rat" where
  "round_binary p emin x =
     (if x = 0 then 0
      else
        (let e = max (ilog2 \<bar>x\<bar>) emin;
             ulp = pow2 (e - (int p - 1))
         in sgn x * of_int (round_half_even (\<bar>x\<bar> / ulp)) * ulp))"

definition float32 :: "rat \<Rightarrow> rat" where
  "float32 x = round_binary 24 (- 126) x"

definition float64 :: "rat \<Rightarrow> rat" where
  "float64 x = round_binary 53 (- 1022) x"

section \<open>The input pipeline\<close>

subsection \<open>Parsing a record\<close>

text \<open>
  \<open>tf.parse_single_example\<close> with the two \<open>FixedLenFeature\<close> entries of the notebook: a
  scalar string under \<open>image_raw\<close> and an \<open>int64\<close> tensor of shape \<open>[2]\<close> under \<open>label\<close>.
  A feature must be there, be of the asked kind and hold as many values as the shape.
\<close>

definition feature_named :: "example \<Rightarrow> string \<Rightarrow> feature option" where
  "feature_named ex key = map_of (rev ex) key"

definition fixed_len_string :: "example \<Rightarrow> string \<Rightarrow> py_error + bytes" where
  "fixed_len_string ex key =
     (case feature_named ex key of
        Some (BytesList vs) \<Rightarrow>
          (case vs of
             [v] \<Rightarrow> Inr v
           | _ \<Rightarrow> Inl (InvalidArgumentError (''Key: '' @ key @ ''. Number of values != expected'')))
      | Some (FloatList packed) \<Rightarrow>
          Inl (InvalidArgumentError (''Key: '' @ key @ ''. Data types do not match''))
      | Some (Int64List vs) \<Rightarrow>
          Inl (InvalidArgumentError (''Key: '' @ key @ ''. Data types do not match''))
      | _ \<Rightarrow> Inl (InvalidArgumentError (''Feature: '' @ key @ '' is required but could not be found'')))"

definition fixed_len_int64 :: "example \<Rightarrow> string \<Rightarrow> nat list \<Rightarrow> py_error + int ndarray" where
  "fixed_len_int64 ex key shp =
     (case feature_named ex key of
        Some (Int64List vs) \<Rightarrow>
          (if length vs = prod_list shp then Inr \<lparr>shape = shp, buffer = vs\<rparr>
           else Inl (InvalidArgumentError (''Key: '' @ key @ ''. Number of values != expected'')))
      | Some (BytesList vs) \<Rightarrow>
          Inl (InvalidArgumentError (''Key: '' @ key @ ''. Data types do not match''))
      | Some (FloatList packed) \<Rightarrow>
          Inl (InvalidArgumentError (''Key: '' @ key @ ''. Data types do not match''))
      | _ \<Rightarrow> Inl (InvalidArgumentError (''Feature: '' @ key @ '' is required but could not be found'')))"

definition parse_protocol_buffer :: "bytes \<Rightarrow> py_error + (bytes \<times> int ndarray)" where
  "parse_protocol_buffer example_proto =
     (case ParseFromString example_proto of
        None \<Rightarrow> Inl (InvalidArgumentError ''Could not parse example input'')
      | Some parsed_features \<Rightarrow>
          (case fixed_len_string parsed_features ''image_raw'' of
             Inl e \<Rightarrow> Inl e
           | Inr image_raw \<Rightarrow>
               (case fixed_len_int64 parsed_features ''label'' [2] of
                  Inl e \<Rightarrow> Inl e
                | Inr label \<Rightarrow> Inr (image_raw, label))))"

subsection \<open>Decoding a parsed record\<close>

definition tf_decode_raw :: "bytes \<Rightarrow> byte ndarray" where
  "tf_decode_raw s = \<lparr>shape = [length s], buffer = s\<rparr>"

definition tf_reshape :: "'a ndarray \<Rightarrow> nat list \<Rightarrow> py_error + 'a ndarray" where
  "tf_reshape t new_shape =
     (if prod_list new_shape = length (buffer t) then Inr \<lparr>shape = new_shape, buffer = buffer t\<rparr>
      else Inl (InvalidArgumentError ''Input to reshape has a different number of values''))"

definition tensor_map :: "('a \<Rightarrow> 'b) \<Rightarrow> 'a ndarray \<Rightarrow> 'b ndarray" where
  "tensor_map f t = \<lparr>shape = shape t, buffer = map f (buffer t)\<rparr>"

text \<open>Casts to \<open>float32\<close>: a byte is a float as it is, a 64-bit integer is rounded.\<close>

definition cast_uint8_float32 :: "byte ndarray \<Rightarrow> rat ndarray" where
  "cast_uint8_float32 t = tensor_map (\<lambda>b. of_nat (unat b)) t"

definition cast_int64_float32 :: "int ndarray \<Rightarrow> rat ndarray" where
  "cast_int64_float32 t = tensor_map (\<lambda>v. float32 (of_int v)) t"

text \<open>
  The Python constant \<open>2. / 255\<close> is a double; multiplied into a \<open>float32\<close> tensor it is
  converted to \<open>float32\<close>. The product and the difference are rounded one after the other.
\<close>

definition two_over_255 :: rat where
  "two_over_255 = float32 (float64 (2 / 255))"

definition normalize_pixel :: "rat \<Rightarrow> rat" where
  "normalize_pixel x = float32 (float32 (x * two_over_255) - 1)"

record sample =
  image :: "rat ndarray"
  label :: "rat ndarray"

definition convert_parsed_proto_to_input :: "bytes \<times> int ndarray \<Rightarrow> py_error + sample" where
  "convert_parsed_proto_to_input parsed =
     (let image_string = fst parsed;
          image_decoded = tf_decode_raw image_string
      in case tf_reshape image_decoded [128, 128, 3] of
           Inl e \<Rightarrow> Inl e
         | Inr image_resized \<Rightarrow>
             (let image = cast_uint8_float32 image_resized in
              case tf_reshape (snd parsed) [2] of
                Inl e \<Rightarrow> Inl e
              | Inr label2 \<Rightarrow>
                  Inr \<lparr>image = tensor_map normalize_pixel image,
                       label = cast_int64_float32 label2\<rparr>))"

text \<open>What the two \<open>map\<close> stages together make of one record of the file.\<close>

definition load_record :: "bytes \<Rightarrow> py_error + sample" where
  "load_record r =
     (case parse_protocol_buffer r of
        Inl e \<Rightarrow> Inl e
      | Inr parsed \<Rightarrow> convert_parsed_proto_to_input parsed)"

subsection \<open>Datasets\<close>

text \<open>
  A dataset is what one pass over it yields: a finite list of elements, where an element that
  cannot be produced is the exception it raises (the consumer stops there). Shuffling draws
  from a supply of random numbers, which a pass uses up, so that every repetition of a
  shuffled dataset is shuffled afresh.
\<close>

type_synonym rng = "nat list"

type_synonym 'a dataset = "rng \<Rightarrow> 'a list \<times> rng"

definition draw :: "nat \<Rightarrow> rng \<Rightarrow> nat \<times> rng" where
  "draw k rng = (case rng of [] \<Rightarrow> (0, []) | r # rs \<Rightarrow> (r mod k, rs))"

definition TFRecordDataset :: "file_system \<Rightarrow> string \<Rightarrow> (py_error + bytes) dataset" where
  "TFRecordDataset fs path rng =
     (case files fs path of
        Some (TFRecords rs) \<Rightarrow> (map Inr rs, rng)
      | Some c \<Rightarrow> ([Inl (DataLossError path)], rng)
      | None \<Rightarrow> ([Inl (NotFoundError path)], rng))"

text \<open>\<open>dataset.map(f)\<close>: an element that already is an exception stays one.\<close>

definition dataset_map ::
  "('a \<Rightarrow> py_error + 'b) \<Rightarrow> (py_error + 'a) dataset \<Rightarrow> (py_error + 'b) dataset" where
  "dataset_map f ds rng =
     (case ds rng of
        (xs, rng') \<Rightarrow> (map (\<lambda>x. case x of Inl e \<Rightarrow> Inl e | Inr v \<Rightarrow> f v) xs, rng'))"

text \<open>
  \<open>dataset.shuffle(buffer_size)\<close>: the buffer is filled from the front of the input; each
  output is a random slot of the buffer, refilled from the input while there is any.
\<close>

function shuffle_run :: "'a list \<Rightarrow> 'a list \<Rightarrow> rng \<Rightarrow> 'a list \<times> rng" where
  "shuffle_run buf incoming rng =
     (if buf = [] then ([], rng)
      else
        (let (i, rng1) = draw (length buf) rng;
             x = buf ! i
         in case incoming of
              [] \<Rightarrow>
                (case shuffle_run (take i buf @ drop (Suc i) buf) [] rng1 of
                   (out, rng2) \<Rightarrow> (x # out, rng2))
            | y # ys \<Rightarrow>
                (case shuffle_run (buf[i := y]) ys rng1 of
                   (out, rng2) \<Rightarrow> (x # out, rng2))))"
  by pat_completeness auto
termination
proof (relation "measure (\<lambda>(buf, incoming, rng). length buf + length incoming)")
  show "wf (measure (\<lambda>(buf, incoming, rng). length buf + length incoming))"
    by simp
next
  fix buf incoming :: "'a list" and rng :: rng and x i rng1 xa
  assume "buf \<noteq> []" and "x = draw (length buf) rng" and "(i, rng1) = x" and "incoming = []"
  then have "i < length buf"
    by (auto simp: draw_def split: list.splits)
  then show "((take i buf @ drop (Suc i) buf, [], rng1), buf, incoming, rng)
      \<in> measure (\<lambda>(buf, incoming, rng). length buf + length incoming)"
    by simp
next
  fix buf incoming :: "'a list" and rng :: rng and x i rng1 xa y ys
  assume "incoming = y # ys"
  then show "((buf[i := y], ys, rng1), buf, incoming, rng)
      \<in> measure (\<lambda>(buf, incoming, rng). length buf + length incoming)"
    by simp
qed

declare shuffle_run.simps [simp del]

definition dataset_shuffle :: "nat \<Rightarrow> 'a dataset \<Rightarrow> 'a dataset" where
  "dataset_shuffle buffer_size ds rng =
     (case ds rng of
        (xs, rng') \<Rightarrow> shuffle_run (take buffer_size xs) (drop buffer_size xs) rng')"

text \<open>\<open>dataset.repeat(count)\<close>: \<open>count\<close> passes over the input, one after the other.\<close>

fun dataset_repeat :: "nat \<Rightarrow> 'a dataset \<Rightarrow> 'a dataset" where
  "dataset_repeat 0 ds rng = ([], rng)"
| "dataset_repeat (Suc k) ds rng =
     (case ds rng of
        (xs, rng1) \<Rightarrow> (case dataset_repeat k ds rng1 of (ys, rng2) \<Rightarrow> (xs @ ys, rng2)))"

text \<open>
  \<open>dataset.batch(batch_size)\<close>: consecutive elements are stacked along a new first
  dimension; what is left at the end makes a smaller batch.
\<close>

function chunks_of :: "nat \<Rightarrow> 'a list \<Rightarrow> 'a list list" where
  "chunks_of n xs = (if n = 0 \<or> xs = [] then [] else take n xs # chunks_of n (drop n xs))"
  by pat_completeness auto
termination
  by (relation "measure (\<lambda>(n, xs). length xs)") auto

declare chunks_of.simps [simp del]

definition stack :: "'a ndarray list \<Rightarrow> py_error + 'a ndarray" where
  "stack ts =
     (if ts \<noteq> [] \<and> list_all (\<lambda>t. shape t = shape (hd ts)) ts
      then Inr \<lparr>shape = length ts # shape (hd ts), buffer = concat (map buffer ts)\<rparr>
      else Inl (InvalidArgumentError ''Cannot batch tensors with different shapes''))"

fun first_error :: "(py_error + 'a) list \<Rightarrow> py_error option" where
  "first_error [] = None"
| "first_error (Inl e # xs) = Some e"
| "first_error (Inr v # xs) = first_error xs"

definition make_batch :: "(py_error + sample) list \<Rightarrow> py_error + sample" where
  "make_batch elems =
     (case first_error elems of
        Some e \<Rightarrow> Inl e
      | None \<Rightarrow>
          (case stack (map (\<lambda>x. image (projr x)) elems) of
             Inl e \<Rightarrow> Inl e
           | Inr images \<Rightarrow>
               (case stack (map (\<lambda>x. label (projr x)) elems) of
                  Inl e \<Rightarrow> Inl e
                | Inr labels \<Rightarrow> Inr \<lparr>image = images, label = labels\<rparr>)))"

definition dataset_batch :: "nat \<Rightarrow> (py_error + sample) dataset \<Rightarrow> (py_error + sample) dataset" where
  "dataset_batch batch_size ds rng =
     (if batch_size = 0 then ([Inl (InvalidArgumentError ''Batch size must be greater than zero'')], rng)
      else (case ds rng of (xs, rng') \<Rightarrow> (map make_batch (chunks_of batch_size xs), rng')))"

subsection \<open>The pipeline\<close>

text \<open>The dataset as it stands after \<open>dataset.repeat(batch_size * epochs)\<close>, before batching.\<close>

definition elements_before_batch ::
  "nat \<Rightarrow> nat \<Rightarrow> file_system \<Rightarrow> string \<Rightarrow> (py_error + sample) dataset" where
  "elements_before_batch batch_size epochs fs tfr_file =
     dataset_repeat (batch_size * epochs)
       (dataset_shuffle 1000
          (dataset_map convert_parsed_proto_to_input
             (dataset_map parse_protocol_buffer (TFRecordDataset fs tfr_file))))"

definition input_pipeline ::
  "nat \<Rightarrow> nat \<Rightarrow> file_system \<Rightarrow> string \<Rightarrow> (py_error + sample) dataset" where
  "input_pipeline batch_size epochs fs tfr_file =
     dataset_repeat epochs
       (dataset_batch batch_size (elements_before_batch batch_size epochs fs tfr_file))"

section \<open>Example data\<close>





text \<open>A disk holding the image directory with two pictures' names and the given attribute text.\<close>

definition disk_with_attr_text :: "string \<Rightarrow> file_system" where
  "disk_with_attr_text text =
     \<lparr>directories = [IMG_DIR \<mapsto> [''000001.jpg'', ''000002.jpg'']],
      files = [LABEL_TXT_PATH \<mapsto> Text text]\<rparr>"

definition empty_disk :: file_system where
  "empty_disk = \<lparr>directories = Map.empty, files = Map.empty\<rparr>"

definition disk_without_attr_file :: file_system where
  "disk_without_attr_file =
     \<lparr>directories = [IMG_DIR \<mapsto> [''000001.jpg'', ''000002.jpg'']], files = Map.empty\<rparr>"

definition attr_text_png_row :: string where
  "attr_text_png_row = ''1'' @ [CHR 0x0A] @ ''Bald Male'' @ [CHR 0x0A] @ ''000001.png -1  1'' @ [CHR 0x0A]"

definition attr_text_short_row :: string where
  "attr_text_short_row = ''1'' @ [CHR 0x0A] @ ''Bald Male'' @ [CHR 0x0A] @ ''000001.jpg -1  1'' @ [CHR 0x0A]"

text \<open>
  Rows that are no rows of the attribute file: one of 21 columns with the value 7 throughout,
  and one of 21 columns with a word among them.
\<close>

definition sevens_row :: string where
  "sevens_row = ''x.jpg 7 7 7 7 7 7 7 7 7 7 7 7 7 7 7 7 7 7 7 7 7''"

definition attr_text_sevens :: string where
  "attr_text_sevens = ''1'' @ [CHR 0x0A] @ ''Bald Male'' @ [CHR 0x0A] @ sevens_row @ [CHR 0x0A]"

definition word_row :: string where
  "word_row = ''000001.jpg 1 1 1 1 1 1 1 1 1 1 1 1 1 1 1 1 1 1 1 yes 1''"

definition attr_text_word_row :: string where
  "attr_text_word_row = ''1'' @ [CHR 0x0A] @ ''Bald Male'' @ [CHR 0x0A] @ word_row @ [CHR 0x0A]"

text \<open>
  Notebooks whose disk already holds the record files, a resize that leaves the picture as it
  is, and a split that sends every sample to the train side.
\<close>

definition stale_records :: "bytes list" where
  "stale_records = [[1, 2, 3]]"

definition notebook_with_records :: notebook where
  "notebook_with_records =
     \<lparr>machine = \<lparr>disk = \<lparr>directories = Map.empty,
                            files = [TFR_FILE \<mapsto> TFRecords stale_records]\<rparr>,
                  console = []\<rparr>,
      all_image_paths = None, all_labels = None\<rparr>"

definition split_notebook_with_records :: split_notebook where
  "split_notebook_with_records =
     \<lparr>machine = \<lparr>disk = \<lparr>directories = Map.empty,
                            files = [TFR_TRAIN \<mapsto> TFRecords stale_records,
                                     TFR_TEST \<mapsto> TFRecords stale_records]\<rparr>,
                  console = []\<rparr>,
      all_image_paths = None, all_labels = None,
      tr_paths = None, te_paths = None, tr_lbls = None, te_lbls = None\<rparr>"

definition keep_size :: resizer where
  "keep_size im dsize = Inr im"

text \<open>A serializer that writes the entries by the length of their names: \<open>label\<close> first.\<close>

definition by_name :: entry_rank where
  "by_name key = length key"

definition all_train :: splitter where
  "all_train paths labels = Inr (paths, [], labels, [])"




text \<open>
  Records as \<open>make_tfr\<close> writes them, of a white and of a black picture of the full size,
  and a disk that holds a record file of the two.
\<close>

definition white_record :: bytes where
  "white_record =
     SerializeToString by_name
       [(''image_raw'', BytesList [replicate 49152 255]), (''label'', Int64List [1, 0])]"

definition black_record :: bytes where
  "black_record =
     SerializeToString by_name
       [(''image_raw'', BytesList [replicate 49152 0]), (''label'', Int64List [0, 1])]"

definition records_disk :: file_system where
  "records_disk =
     \<lparr>directories = [''tfr'' \<mapsto> [''celeba_tutorial'']],
      files = [''tfr/celeba_tutorial'' \<mapsto> TFRecords [white_record, black_record]]\<rparr>"




section \<open>Properties of the training loop\<close>

lemma loop_body_train:
  assumes "epoch mod 500 \<noteq> 0" and "train_iterator s = b # bs"
  shows "\<exists>s'. loop_body g epoch s = Inr s' \<and>
     params s' = minimize g (params s) (1 / 2) b \<and>
     train_iterator s' = bs \<and> test_iterator s' = test_iterator s \<and>
     train_writer s' = train_writer s @
       [(\<lparr>sum_keep_prob = 1 / 2, sum_xent = loss_fn g (params s) (1 / 2) b,
          sum_accuracy = accuracy_fn g (params s) (1 / 2) b\<rparr>, epoch)] \<and>
     test_writer s' = test_writer s \<and>
     stdout s' = stdout s @
       (if epoch mod 100 = 0
        then [(''Train'', epoch, loss_fn g (params s) (1 / 2) b, accuracy_fn g (params s) (1 / 2) b)]
        else [])"
  using assms
  by (simp add: loop_body_def sess_run_def choose_data_def get_next_def train_dict_def Let_def)

lemma loop_body_test:
  assumes "epoch mod 500 = 0" and "test_iterator s = b # bs"
  shows "\<exists>s'. loop_body g epoch s = Inr s' \<and>
     params s' = params s \<and>
     train_iterator s' = train_iterator s \<and> test_iterator s' = bs \<and>
     train_writer s' = train_writer s \<and>
     test_writer s' = test_writer s @
       [(\<lparr>sum_keep_prob = 1, sum_xent = loss_fn g (params s) 1 b,
          sum_accuracy = accuracy_fn g (params s) 1 b\<rparr>, epoch)] \<and>
     stdout s' = stdout s @
       (if epoch mod 100 = 0
        then [(''Test'', epoch, loss_fn g (params s) 1 b, accuracy_fn g (params s) 1 b)]
        else [])"
  using assms
  by (simp add: loop_body_def sess_run_def choose_data_def get_next_def test_dict_def Let_def)

lemma for_epochs_append:
  "for_epochs g (es @ [e]) s =
     (case for_epochs g es s of Inl x \<Rightarrow> Inl x | Inr s1 \<Rightarrow> loop_body g e s1)"
  by (induction es arbitrary: s) (auto split: sum.splits)

lemma steps_before_Suc:
  "train_steps_before (Suc i) = train_steps_before i + (if i mod 500 \<noteq> 0 then 1 else 0)"
  "test_steps_before (Suc i) = test_steps_before i + (if i mod 500 = 0 then 1 else 0)"
  by (simp_all add: train_steps_before_def test_steps_before_def)

text \<open>
  Claim C9. In the split notebook's training loop over the steps \<open>0, ..., iterations\<close>, with
  iterators that hold enough batches for the run, the run ends normally and is the following.
  The optimizer update is applied on exactly the steps with \<open>i mod 500 \<noteq> 0\<close>, each on the
  next train batch: the final parameters are the fold of the update over those batches, and
  those steps are the ones the train writer logs, with the loss and accuracy of that batch
  at keep probability 1/2. The steps with \<open>i mod 500 = 0\<close> are exactly the ones the test
  writer logs: each draws the next batch of the held-out test iterator through the switch,
  evaluates loss and accuracy on it with keep probability 1 and the parameters as they
  stand, and leaves the parameters alone. A line is printed on exactly the steps with
  \<open>i mod 100 = 0\<close>: the tag Test or Train, the step, and the loss and accuracy that step
  computed.
\<close>

theorem training_loop_schedule:
  assumes "train_steps_before (n + 1) \<le> length (train_iterator s)"
    and "test_steps_before (n + 1) \<le> length (test_iterator s)"
  shows "\<exists>s'. training_loop g n s = Inr s' \<and>
     params s' = params_at g s (n + 1) \<and>
     train_iterator s' = drop (train_steps_before (n + 1)) (train_iterator s) \<and>
     test_iterator s' = drop (test_steps_before (n + 1)) (test_iterator s) \<and>
     train_writer s' =
       train_writer s @
       map (\<lambda>i. (train_summary g s i, i)) (filter (\<lambda>i. i mod 500 \<noteq> 0) [0..<n + 1]) \<and>
     test_writer s' =
       test_writer s @
       map (\<lambda>i. (test_summary g s i, i)) (filter (\<lambda>i. i mod 500 = 0) [0..<n + 1]) \<and>
     stdout s' =
       stdout s @ map (printed_line g s) (filter (\<lambda>i. i mod 100 = 0) [0..<n + 1])"
  using assms
proof (induction n)
  case 0
  from 0 obtain b bs where it: "test_iterator s = b # bs"
    by (cases "test_iterator s") (simp_all add: test_steps_before_def)
  from loop_body_test [of 0 s b bs g] it obtain s' where
    "loop_body g 0 s = Inr s'" "params s' = params s"
    "train_iterator s' = train_iterator s" "test_iterator s' = bs"
    "train_writer s' = train_writer s"
    "test_writer s' = test_writer s @
       [(\<lparr>sum_keep_prob = 1, sum_xent = loss_fn g (params s) 1 b,
          sum_accuracy = accuracy_fn g (params s) 1 b\<rparr>, 0)]"
    "stdout s' = stdout s @ [(''Test'', 0, loss_fn g (params s) 1 b, accuracy_fn g (params s) 1 b)]"
    by auto
  then show ?case
    using it
    by (simp add: training_loop_def params_at_def train_steps_before_def test_steps_before_def
        test_summary_def printed_line_def)
next
  case (Suc n)
  let ?e = "Suc n"
  let ?T = "train_iterator s" and ?E = "test_iterator s"
  from Suc.prems have "train_steps_before (n + 1) \<le> length ?T"
    and "test_steps_before (n + 1) \<le> length ?E"
    by (simp_all add: steps_before_Suc split: if_splits)
  from Suc.IH [OF this] obtain s1 where
    run: "training_loop g n s = Inr s1" and
    p1: "params s1 = params_at g s ?e" and
    t1: "train_iterator s1 = drop (train_steps_before ?e) ?T" and
    e1: "test_iterator s1 = drop (test_steps_before ?e) ?E" and
    tw1: "train_writer s1 =
       train_writer s @
       map (\<lambda>i. (train_summary g s i, i)) (filter (\<lambda>i. i mod 500 \<noteq> 0) [0..<n + 1])" and
    ew1: "test_writer s1 =
       test_writer s @
       map (\<lambda>i. (test_summary g s i, i)) (filter (\<lambda>i. i mod 500 = 0) [0..<n + 1])" and
    o1: "stdout s1 =
       stdout s @ map (printed_line g s) (filter (\<lambda>i. i mod 100 = 0) [0..<n + 1])"
    by auto
  have loop: "training_loop g ?e s = loop_body g ?e s1"
    using run for_epochs_append [of g "[0..<n + 1]" ?e s]
    by (simp add: training_loop_def)
  show ?case
  proof (cases "?e mod 500 = 0")
    case True
    then have c100: "?e mod 100 = 0"
      by presburger
    from Suc.prems True have less: "test_steps_before ?e < length ?E"
      by (simp add: steps_before_Suc)
    then have it: "test_iterator s1 = ?E ! test_steps_before ?e # drop (Suc (test_steps_before ?e)) ?E"
      by (simp add: e1 Cons_nth_drop_Suc)
    from loop_body_test [OF True it, of g] obtain s' where
      s': "loop_body g ?e s1 = Inr s'" "params s' = params s1"
      "train_iterator s' = train_iterator s1"
      "test_iterator s' = drop (Suc (test_steps_before ?e)) ?E"
      "train_writer s' = train_writer s1"
      "test_writer s' = test_writer s1 @
         [(\<lparr>sum_keep_prob = 1,
            sum_xent = loss_fn g (params s1) 1 (?E ! test_steps_before ?e),
            sum_accuracy = accuracy_fn g (params s1) 1 (?E ! test_steps_before ?e)\<rparr>, ?e)]"
      "stdout s' = stdout s1 @
         [(''Test'', ?e, loss_fn g (params s1) 1 (?E ! test_steps_before ?e),
           accuracy_fn g (params s1) 1 (?E ! test_steps_before ?e))]"
      using c100 by auto
    have same: "params_at g s (?e + 1) = params_at g s ?e"
      using True by (simp add: params_at_def steps_before_Suc)
    show ?thesis
      using s' loop True c100 same
      by (simp add: p1 t1 tw1 ew1 o1 steps_before_Suc test_summary_def printed_line_def)
  next
    case False
    from Suc.prems False have less: "train_steps_before ?e < length ?T"
      by (simp add: steps_before_Suc)
    then have it: "train_iterator s1 = ?T ! train_steps_before ?e # drop (Suc (train_steps_before ?e)) ?T"
      by (simp add: t1 Cons_nth_drop_Suc)
    from loop_body_train [OF False it, of g] obtain s' where
      s': "loop_body g ?e s1 = Inr s'"
      "params s' = minimize g (params s1) (1 / 2) (?T ! train_steps_before ?e)"
      "train_iterator s' = drop (Suc (train_steps_before ?e)) ?T"
      "test_iterator s' = test_iterator s1"
      "train_writer s' = train_writer s1 @
         [(\<lparr>sum_keep_prob = 1 / 2,
            sum_xent = loss_fn g (params s1) (1 / 2) (?T ! train_steps_before ?e),
            sum_accuracy = accuracy_fn g (params s1) (1 / 2) (?T ! train_steps_before ?e)\<rparr>, ?e)]"
      "test_writer s' = test_writer s1"
      "stdout s' = stdout s1 @
         (if ?e mod 100 = 0
          then [(''Train'', ?e, loss_fn g (params s1) (1 / 2) (?T ! train_steps_before ?e),
                 accuracy_fn g (params s1) (1 / 2) (?T ! train_steps_before ?e))]
          else [])"
      by auto
    have next_params: "params_at g s (?e + 1) =
        minimize g (params_at g s ?e) (1 / 2) (?T ! train_steps_before ?e)"
      using False less by (simp add: params_at_def steps_before_Suc take_Suc_conv_app_nth)
    show ?thesis
      using s' loop False next_params
      by (simp add: p1 t1 e1 tw1 ew1 o1 steps_before_Suc train_summary_def printed_line_def)
  qed
qed

theorem training_loop_schedule_witness:
  "train_steps_before (2 + 1) \<le> length (train_iterator example_session) \<and>
   test_steps_before (2 + 1) \<le> length (test_iterator example_session) \<and>
   (\<exists>s'. training_loop example_graph 2 example_session = Inr s' \<and>
      params s' = 2 \<and> train_iterator s' = [] \<and> test_iterator s' = [] \<and>
      train_writer s' =
        [(\<lparr>sum_keep_prob = 1 / 2, sum_xent = 10, sum_accuracy = 10\<rparr>, 1),
         (\<lparr>sum_keep_prob = 1 / 2, sum_xent = 21, sum_accuracy = 20\<rparr>, 2)] \<and>
      test_writer s' = [(\<lparr>sum_keep_prob = 1, sum_xent = 30, sum_accuracy = 30\<rparr>, 0)] \<and>
      stdout s' = [(''Test'', 0, 30, 30)])"
proof -
  have e: "[0..<2 + 1] = [0, 1, Suc 1]"
    by (simp add: upt_rec)
  have tr: "train_steps_before 0 = 0" "train_steps_before (Suc 0) = 0" "train_steps_before 2 = 1"
    "train_steps_before (Suc (Suc 0)) = 1"
    "train_steps_before 3 = 2"
    by (simp_all add: train_steps_before_def upt_rec)
  have te: "test_steps_before 0 = 0" "test_steps_before 3 = 1"
    by (simp_all add: test_steps_before_def upt_rec)
  have h1: "train_steps_before (2 + 1) \<le> length (train_iterator example_session)"
    by (simp add: tr example_session_def)
  have h2: "test_steps_before (2 + 1) \<le> length (test_iterator example_session)"
    by (simp add: te example_session_def)
  from training_loop_schedule [OF h1 h2, of example_graph] obtain s' where
    "training_loop example_graph 2 example_session = Inr s'"
    "params s' = params_at example_graph example_session (2 + 1)"
    "train_iterator s' = drop (train_steps_before (2 + 1)) (train_iterator example_session)"
    "test_iterator s' = drop (test_steps_before (2 + 1)) (test_iterator example_session)"
    "train_writer s' =
       train_writer example_session @
       map (\<lambda>i. (train_summary example_graph example_session i, i))
         (filter (\<lambda>i. i mod 500 \<noteq> 0) [0..<2 + 1])"
    "test_writer s' =
       test_writer example_session @
       map (\<lambda>i. (test_summary example_graph example_session i, i))
         (filter (\<lambda>i. i mod 500 = 0) [0..<2 + 1])"
    "stdout s' =
       stdout example_session @
       map (printed_line example_graph example_session) (filter (\<lambda>i. i mod 100 = 0) [0..<2 + 1])"
    by blast
  then have r: "training_loop example_graph 2 example_session = Inr s' \<and>
      params s' = 2 \<and> train_iterator s' = [] \<and> test_iterator s' = [] \<and>
      train_writer s' =
        [(\<lparr>sum_keep_prob = 1 / 2, sum_xent = 10, sum_accuracy = 10\<rparr>, 1),
         (\<lparr>sum_keep_prob = 1 / 2, sum_xent = 21, sum_accuracy = 20\<rparr>, 2)] \<and>
      test_writer s' = [(\<lparr>sum_keep_prob = 1, sum_xent = 30, sum_accuracy = 30\<rparr>, 0)] \<and>
      stdout s' = [(''Test'', 0, 30, 30)]"
    unfolding e
    by (simp add: tr te params_at_def train_summary_def test_summary_def printed_line_def
        example_session_def example_graph_def)
  show ?thesis
  proof (intro conjI)
    show "\<exists>s'. training_loop example_graph 2 example_session = Inr s' \<and>
      params s' = 2 \<and> train_iterator s' = [] \<and> test_iterator s' = [] \<and>
      train_writer s' =
        [(\<lparr>sum_keep_prob = 1 / 2, sum_xent = 10, sum_accuracy = 10\<rparr>, 1),
         (\<lparr>sum_keep_prob = 1 / 2, sum_xent = 21, sum_accuracy = 20\<rparr>, 2)] \<and>
      test_writer s' = [(\<lparr>sum_keep_prob = 1, sum_xent = 30, sum_accuracy = 30\<rparr>, 0)] \<and>
      stdout s' = [(''Test'', 0, 30, 30)]"
      using r by (rule exI)
  qed (rule h1, rule h2)
qed

section \<open>Properties of model construction\<close>

lemma then_do_Inr:
  "then_do m f st = (Inr y, st') \<longleftrightarrow> (\<exists>x st1. m st = (Inr x, st1) \<and> f x st1 = (Inr y, st'))"
  by (auto simp: then_do_def split: prod.splits sum.splits)

lemma op_result_Inr: "op_result r st = (Inr y, st') \<longleftrightarrow> r = Inr y \<and> st' = st"
  by (auto simp: op_result_def)

lemma get_variable_Inr:
  assumes "get_variable scope name shp st = (Inr dims, st')"
  shows "st' = st @ [(scoped_name scope name, dims)]"
    and "scoped_name scope name \<notin> set (map fst st)"
  using assms by (auto simp: get_variable_def Let_def split: if_splits option.splits)

lemma get_variable_exists:
  assumes "scoped_name scope name \<in> set (map fst st)"
  shows "get_variable scope name shp st =
     (Inl (ValueError (''Variable '' @ scoped_name scope name @ '' already exists, disallowed.'')), st)"
  using assms by (simp add: get_variable_def Let_def)

lemma conv_Inr:
  assumes "conv scope imgs filters_out stride_size kernel_size st = (Inr z, st')"
  shows "map fst st' = map fst st @ [scoped_name scope ''kernel'', scoped_name scope ''bias'']"
    and "scoped_name scope ''kernel'' \<notin> set (map fst st)"
    and "scoped_name scope ''bias'' \<notin> set (map fst st)"
proof -
  from assms have len: "\<not> length imgs \<le> 3"
    by (auto simp: conv_def op_result_def)
  from assms len obtain Kernel st1 Bias st2 where
    k: "get_variable scope ''kernel''
          [Some (fst kernel_size), Some (snd kernel_size), imgs ! 3, Some filters_out] st = (Inr Kernel, st1)"
    and b: "get_variable scope ''bias'' [Some filters_out] st1 = (Inr Bias, st2)"
    and e: "st' = st2"
    by (auto simp: conv_def Let_def then_do_Inr op_result_Inr)
  from get_variable_Inr [OF k] get_variable_Inr [OF b] e
  show "map fst st' = map fst st @ [scoped_name scope ''kernel'', scoped_name scope ''bias'']"
    and "scoped_name scope ''kernel'' \<notin> set (map fst st)"
    and "scoped_name scope ''bias'' \<notin> set (map fst st)"
    by simp_all
qed

lemma conv_exists:
  assumes "scoped_name scope ''kernel'' \<in> set (map fst st)" and "3 < length imgs"
  shows "conv scope imgs filters_out stride_size kernel_size st =
     (Inl (ValueError (''Variable '' @ scoped_name scope ''kernel'' @ '' already exists, disallowed.'')), st)"
  using assms by (simp add: conv_def Let_def then_do_def get_variable_exists)

lemma conv_short:
  assumes "length imgs \<le> 3"
  shows "conv scope imgs filters_out stride_size kernel_size st = (Inl IndexError, st)"
  using assms by (simp add: conv_def op_result_def)

lemma model_Inr_names:
  assumes "model image_tensor store = (Inr logits, store')"
  shows "map fst store' = map fst store @
     [''layer1/kernel'', ''layer1/bias'', ''layer2/kernel'', ''layer2/bias'',
      ''layer3/kernel'', ''layer3/bias'', ''layer4/kernel'', ''layer4/bias'',
      ''fully_connected/weights'', ''fully_connected/bias'']"
    and "set (map fst store) \<inter>
     set [''layer1/kernel'', ''layer1/bias'', ''layer2/kernel'', ''layer2/bias'',
          ''layer3/kernel'', ''layer3/bias'', ''layer4/kernel'', ''layer4/bias'',
          ''fully_connected/weights'', ''fully_connected/bias''] = {}"
proof -
  from assms obtain z1 st1 z2 st2 m2 z3 st3 z4 st4 n_elems W st5 b where
    c1: "conv ''layer1'' image_tensor 16 (2, 2) (5, 5) store = (Inr z1, st1)" and
    c2: "conv ''layer2'' (relu z1) 32 (2, 2) (5, 5) st1 = (Inr z2, st2)" and
    c3: "conv ''layer3'' m2 64 (2, 2) (5, 5) st2 = (Inr z3, st3)" and
    c4: "conv ''layer4'' (relu z3) 64 (2, 2) (5, 5) st3 = (Inr z4, st4)" and
    w: "get_variable ''fully_connected'' ''weights'' [Some n_elems, Some DESIRED_OUTPUT_SIZE] st4 = (Inr W, st5)" and
    b: "get_variable ''fully_connected'' ''bias'' [Some DESIRED_OUTPUT_SIZE] st5 = (Inr b, store')"
    unfolding model_def Let_def then_do_Inr op_result_Inr by blast
  note facts = conv_Inr [OF c1] conv_Inr [OF c2] conv_Inr [OF c3] conv_Inr [OF c4]
    get_variable_Inr [OF w] get_variable_Inr [OF b]
  from facts show "map fst store' = map fst store @
     [''layer1/kernel'', ''layer1/bias'', ''layer2/kernel'', ''layer2/bias'',
      ''layer3/kernel'', ''layer3/bias'', ''layer4/kernel'', ''layer4/bias'',
      ''fully_connected/weights'', ''fully_connected/bias'']"
    by (simp add: scoped_name_def)
  from facts show "set (map fst store) \<inter>
     set [''layer1/kernel'', ''layer1/bias'', ''layer2/kernel'', ''layer2/bias'',
          ''layer3/kernel'', ''layer3/bias'', ''layer4/kernel'', ''layer4/bias'',
          ''fully_connected/weights'', ''fully_connected/bias''] = {}"
    by (simp add: scoped_name_def)
qed

lemma model_exists:
  assumes "''layer1/kernel'' \<in> set (map fst st)"
  shows "model img st =
     (if 3 < length img
      then (Inl (ValueError ''Variable layer1/kernel already exists, disallowed.''), st)
      else (Inl IndexError, st))"
proof (cases "3 < length img")
  case True
  have "scoped_name ''layer1'' ''kernel'' \<in> set (map fst st)"
    using assms by (simp add: scoped_name_def)
  from conv_exists [OF this True, of 16 "(2, 2)" "(5, 5)"] True
  show ?thesis
    by (simp add: model_def then_do_def scoped_name_def)
next
  case False
  then show ?thesis by (simp add: model_def then_do_def conv_short)
qed

lemma model_Inr_rank:
  assumes "model image_tensor store = (Inr logits, store')"
  shows "3 < length image_tensor"
proof (rule ccontr)
  assume "\<not> 3 < length image_tensor"
  then have "conv ''layer1'' image_tensor 16 (2, 2) (5, 5) store = (Inl IndexError, store)"
    by (simp add: conv_short)
  then have "model image_tensor store = (Inl IndexError, store)"
    by (simp add: model_def then_do_def)
  with assms show False by simp
qed

lemma model_batch_image:
  "model batch_image_shape [] =
     (Inr [None, Some 2],
      [(''layer1/kernel'', [5, 5, 3, 16]), (''layer1/bias'', [16]),
       (''layer2/kernel'', [5, 5, 16, 32]), (''layer2/bias'', [32]),
       (''layer3/kernel'', [5, 5, 32, 64]), (''layer3/bias'', [64]),
       (''layer4/kernel'', [5, 5, 64, 64]), (''layer4/bias'', [64]),
       (''fully_connected/weights'', [1024, 2]), (''fully_connected/bias'', [2])])"
  by (simp add: model_def conv_def then_do_def op_result_def get_variable_def scoped_name_def
      batch_image_shape_def relu_def same_out_def n_elems_of_def reshape_flat_def
      DESIRED_OUTPUT_SIZE_def Let_def)

text \<open>
  Claim C6, as the code has it. Whenever a call of \<open>model\<close> succeeds, it has registered
  exactly ten variables, each under the name of the scope that was open (\<open>layerK/kernel\<close> and
  \<open>layerK/bias\<close> for the four convolutions, then the dense layer's two), none of which was in
  the registry before. No scope is opened with \<open>reuse\<close>: a repeated call of \<open>model\<close> on the
  same graph does not reuse these variables, it fails at its first \<open>tf.get_variable\<close> with
  the name conflict, and the registry stays as the first call left it (no second set).
\<close>

theorem model_scoped_without_reuse:
  assumes "model image_tensor store = (Inr logits, store')"
  shows "map fst store' = map fst store @
       [''layer1/kernel'', ''layer1/bias'', ''layer2/kernel'', ''layer2/bias'',
        ''layer3/kernel'', ''layer3/bias'', ''layer4/kernel'', ''layer4/bias'',
        ''fully_connected/weights'', ''fully_connected/bias''] \<and>
     set (map fst store) \<inter>
       set [''layer1/kernel'', ''layer1/bias'', ''layer2/kernel'', ''layer2/bias'',
            ''layer3/kernel'', ''layer3/bias'', ''layer4/kernel'', ''layer4/bias'',
            ''fully_connected/weights'', ''fully_connected/bias''] = {} \<and>
     model image_tensor store' =
       (Inl (ValueError ''Variable layer1/kernel already exists, disallowed.''), store')"
proof -
  note names = model_Inr_names [OF assms]
  from names(1) have "''layer1/kernel'' \<in> set (map fst store')"
    by simp
  from model_exists [OF this, of image_tensor] model_Inr_rank [OF assms]
  have "model image_tensor store' =
       (Inl (ValueError ''Variable layer1/kernel already exists, disallowed.''), store')"
    by simp
  with names show ?thesis by blast
qed

theorem model_scoped_without_reuse_witness:
  "model batch_image_shape [] =
     (Inr [None, Some 2],
      [(''layer1/kernel'', [5, 5, 3, 16]), (''layer1/bias'', [16]),
       (''layer2/kernel'', [5, 5, 16, 32]), (''layer2/bias'', [32]),
       (''layer3/kernel'', [5, 5, 32, 64]), (''layer3/bias'', [64]),
       (''layer4/kernel'', [5, 5, 64, 64]), (''layer4/bias'', [64]),
       (''fully_connected/weights'', [1024, 2]), (''fully_connected/bias'', [2])]) \<and>
   model batch_image_shape
      [(''layer1/kernel'', [5, 5, 3, 16]), (''layer1/bias'', [16]),
       (''layer2/kernel'', [5, 5, 16, 32]), (''layer2/bias'', [32]),
       (''layer3/kernel'', [5, 5, 32, 64]), (''layer3/bias'', [64]),
       (''layer4/kernel'', [5, 5, 64, 64]), (''layer4/bias'', [64]),
       (''fully_connected/weights'', [1024, 2]), (''fully_connected/bias'', [2])] =
     (Inl (ValueError ''Variable layer1/kernel already exists, disallowed.''),
      [(''layer1/kernel'', [5, 5, 3, 16]), (''layer1/bias'', [16]),
       (''layer2/kernel'', [5, 5, 16, 32]), (''layer2/bias'', [32]),
       (''layer3/kernel'', [5, 5, 32, 64]), (''layer3/bias'', [64]),
       (''layer4/kernel'', [5, 5, 64, 64]), (''layer4/bias'', [64]),
       (''fully_connected/weights'', [1024, 2]), (''fully_connected/bias'', [2])])"
  using model_scoped_without_reuse [OF model_batch_image] model_batch_image by simp

text \<open>
  The claim as written fails: a second call of \<open>model\<close> on the graph the first call built
  returns no logits that share the first call's variables; it raises.
\<close>

theorem model_repeated_call_counterexample:
  "fst (model batch_image_shape (snd (model batch_image_shape []))) =
     Inl (ValueError ''Variable layer1/kernel already exists, disallowed.'')"
proof -
  have "''layer1/kernel'' \<in> set (map fst (snd (model batch_image_shape [])))"
    by (simp add: model_batch_image)
  from model_exists [OF this, of batch_image_shape] show ?thesis
    by (simp add: batch_image_shape_def)
qed

section \<open>Properties of the label extractor\<close>

lemma split_from_no_occurrence:
  assumes "\<not> has_substring sep s"
  shows "split_from sep cur s = [rev cur @ s]"
  using assms by (induction s arbitrary: cur) auto

lemma label_of_line_no_jpg:
  assumes "\<not> has_substring ''.jpg'' line"
  shows "label_of_line line = Inl IndexError"
  using split_from_no_occurrence [OF assms, of "[]"]
  by (simp add: label_of_line_def str_split_def)

lemma int_fields_length:
  assumes "int_fields ws = Inr vs"
  shows "length vs = length (filter (\<lambda>lbl. lbl \<noteq> []) ws)"
  using assms
  by (induction ws arbitrary: vs) (auto split: if_splits sum.splits)

lemma label_of_line_few_fields:
  assumes "length (attribute_fields line) < 21"
  shows "\<exists>e. label_of_line line = Inl e"
proof (cases "int_fields (split_from '' '' [] (split_from ''.jpg'' [] line ! 1))")
  case (Inl e)
  then show ?thesis
    by (simp add: label_of_line_def str_split_def Let_def)
next
  case (Inr vs)
  from int_fields_length [OF Inr] assms have "length vs \<le> 20"
    by (simp add: attribute_fields_def)
  with Inr show ?thesis
    by (simp add: label_of_line_def str_split_def Let_def)
qed


lemma labels_of_lines_Inr:
  "labels_of_lines lines acc = Inr labels \<longleftrightarrow>
     (\<exists>ls. map label_of_line lines = map Inr ls \<and> labels = acc @ ls)"
proof (induction lines arbitrary: acc)
  case Nil
  then show ?case by auto
next
  case (Cons line lines)
  show ?case
  proof (cases "label_of_line line")
    case (Inl e)
    then show ?thesis by (auto simp: map_eq_Cons_conv)
  next
    case (Inr l)
    then show ?thesis
      by (auto simp: Cons.IH map_eq_Cons_conv)
  qed
qed

lemma labels_of_lines_bad_line:
  assumes "line \<in> set lines" and "label_of_line line = Inl e"
  shows "\<exists>e'. labels_of_lines lines acc = Inl e'"
proof (cases "labels_of_lines lines acc")
  case (Inl e')
  then show ?thesis by blast
next
  case (Inr labels)
  then obtain ls where "map label_of_line lines = map Inr ls"
    by (auto simp: labels_of_lines_Inr)
  then have "label_of_line ` set lines \<subseteq> range Inr"
    by (metis image_set image_subsetI list.set_map rangeI subsetI)
  with assms show ?thesis by auto
qed

lemma labels_of_lines_Inl:
  assumes "labels_of_lines lines acc = Inl e"
  shows "map label_of_line lines \<noteq> map Inr ls"
proof
  assume "map label_of_line lines = map Inr ls"
  then have "labels_of_lines lines acc = Inr (acc @ ls)"
    by (auto simp: labels_of_lines_Inr)
  with assms show False by simp
qed

lemma read_labeled_image_list_Inr:
  "read_labeled_image_list fs img_dir label_txt_path = Inr (paths, labels) \<longleftrightarrow>
     (\<exists>names text.
        directories fs img_dir = Some names \<and> files fs label_txt_path = Some (Text text) \<and>
        paths = map (os_path_join img_dir) names \<and>
        map label_of_line (drop 2 (splitlines text)) = map Inr labels)"
  by (auto simp: read_labeled_image_list_def os_listdir_def open_read_def Let_def
      labels_of_lines_Inr dest: labels_of_lines_Inl
      split: option.splits sum.splits file_content.splits)

lemma split_from_not_Nil: "split_from sep cur s \<noteq> []"
  by (induction sep cur s rule: split_from.induct) auto

lemma split_from_occurrence:
  assumes "has_substring sep s" and "sep \<noteq> []"
  shows "2 \<le> length (split_from sep cur s)"
  using assms
proof (induction s arbitrary: cur)
  case Nil
  then show ?case by simp
next
  case (Cons c cs)
  show ?case
  proof (cases "take (length sep) (c # cs) = sep")
    case True
    have "1 \<le> length (split_from sep [] (drop (length sep - 1) cs))"
      using split_from_not_Nil [of sep "[]" "drop (length sep - 1) cs"]
      by (cases "split_from sep [] (drop (length sep - 1) cs)") simp_all
    with True Cons.prems show ?thesis
      by simp
  next
    case False
    with Cons show ?thesis
      by simp
  qed
qed

lemma int_fields_Inl:
  "(\<exists>e. int_fields ws = Inl e) \<longleftrightarrow> (\<exists>w \<in> set ws. w \<noteq> [] \<and> (\<exists>e. py_int w = Inl e))"
  by (induction ws) (auto split: sum.splits)

lemma label_of_line_Inl:
  "(\<exists>e. label_of_line line = Inl e) \<longleftrightarrow>
     \<not> has_substring ''.jpg'' line \<or>
     (\<exists>w \<in> set (attribute_fields line). \<exists>e. py_int w = Inl e) \<or>
     length (attribute_fields line) < 21"
proof (cases "has_substring ''.jpg'' line")
  case False
  then show ?thesis
    by (simp add: label_of_line_no_jpg)
next
  case True
  let ?ws = "split_from '' '' [] (split_from ''.jpg'' [] line ! 1)"
  from split_from_occurrence [OF True, of "[]"] have two: "\<not> length (split_from ''.jpg'' [] line) \<le> 1"
    by simp
  show ?thesis
  proof (cases "int_fields ?ws")
    case (Inl e)
    with int_fields_Inl [of ?ws] have "\<exists>w \<in> set (attribute_fields line). \<exists>e. py_int w = Inl e"
      by (auto simp: attribute_fields_def)
    moreover from Inl two have "label_of_line line = Inl e"
      by (simp add: label_of_line_def str_split_def Let_def)
    ultimately show ?thesis by blast
  next
    case (Inr vs)
    with int_fields_Inl [of ?ws] have none: "\<not> (\<exists>w \<in> set (attribute_fields line). \<exists>e. py_int w = Inl e)"
      by (auto simp: attribute_fields_def)
    from int_fields_length [OF Inr] have "length vs = length (attribute_fields line)"
      by (simp add: attribute_fields_def)
    with Inr two True none show ?thesis
      by (auto simp: label_of_line_def str_split_def Let_def)
  qed
qed

lemma labels_of_lines_Inl_iff:
  "(\<exists>e. labels_of_lines lines acc = Inl e) \<longleftrightarrow>
     (\<exists>line \<in> set lines. \<exists>e. label_of_line line = Inl e)"
proof (induction lines arbitrary: acc)
  case Nil
  then show ?case by simp
next
  case (Cons line lines)
  then show ?case
    by (cases "label_of_line line") auto
qed

lemma read_labeled_image_list_Inl:
  "(\<exists>e. read_labeled_image_list fs img_dir label_txt_path = Inl e) \<longleftrightarrow>
     directories fs img_dir = None \<or>
     (\<forall>attr. files fs label_txt_path \<noteq> Some (Text attr)) \<or>
     (\<exists>attr line.
        files fs label_txt_path = Some (Text attr) \<and>
        line \<in> set (drop 2 (splitlines attr)) \<and> (\<exists>e. label_of_line line = Inl e))"
proof (cases "directories fs img_dir")
  case None
  then show ?thesis
    by (auto simp: read_labeled_image_list_def os_listdir_def split: option.splits)
next
  case (Some names)
  note dir = Some
  show ?thesis
  proof (cases "open_read fs label_txt_path")
    case (Inl e)
    then have "\<forall>attr. files fs label_txt_path \<noteq> Some (Text attr)"
      by (auto simp: open_read_def split: option.splits file_content.splits)
    with Inl dir show ?thesis
      by (simp add: read_labeled_image_list_def os_listdir_def Let_def)
  next
    case (Inr attr)
    then have f: "files fs label_txt_path = Some (Text attr)"
      by (auto simp: open_read_def split: option.splits file_content.splits)
    have "(\<exists>e. read_labeled_image_list fs img_dir label_txt_path = Inl e) \<longleftrightarrow>
        (\<exists>e. labels_of_lines (drop 2 (splitlines attr)) [] = Inl e)"
      using dir Inr
      by (auto simp: read_labeled_image_list_def os_listdir_def Let_def split: sum.splits)
    with f dir show ?thesis
      by (auto simp: labels_of_lines_Inl_iff)
  qed
qed

section \<open>Properties of the wire format\<close>

lemma unat_byte: "n < 256 \<Longrightarrow> unat (of_nat n :: byte) = n"
  by (simp add: unat_of_nat)

lemma varint_not_Nil: "varint n \<noteq> []"
  by (subst varint.simps) simp

lemma read_varint_varint: "read_varint (varint n @ rest) = Some (n, rest)"
proof (induction n rule: varint.induct)
  case (1 n)
  show ?case
  proof (cases "n < 128")
    case True
    then show ?thesis
      by (subst varint.simps) (simp add: unat_byte)
  next
    case False
    have "unat (of_nat (n mod 128 + 128) :: byte) = n mod 128 + 128"
      by (rule unat_byte) simp
    with False "1.IH" show ?thesis
      by (subst varint.simps) simp
  qed
qed

lemma read_field_len_delimited:
  assumes "0 < f"
  shows "read_field (len_delimited f p @ rest) = Some ((f, LengthDelimited p), rest)"
proof -
  have "read_field (varint key @ (varint (length p) @ p @ rest)) =
      Some ((f, LengthDelimited p), rest)" if "key div 8 = f" and "key mod 8 = 2" for key
    using assms that by (simp add: read_field_def read_varint_varint Let_def)
  moreover have "(8 * f + 2) div 8 = f" and "(8 * f + 2) mod 8 = 2"
    by presburger+
  ultimately have "read_field (varint (8 * f + 2) @ (varint (length p) @ p @ rest)) =
      Some ((f, LengthDelimited p), rest)"
    by blast
  then show ?thesis
    by (simp add: len_delimited_def)
qed

lemma parse_fields_Nil: "parse_fields [] = Some []"
  by (simp add: parse_fields.simps)

lemma parse_fields_step:
  assumes "read_field bs = Some (fv, rest)"
  shows "parse_fields bs = map_option ((#) fv) (parse_fields rest)"
proof -
  from assms have "bs \<noteq> []"
    by (auto simp: read_field_def)
  with assms show ?thesis
    by (subst parse_fields.simps) (simp split: option.splits)
qed

lemma parse_fields_len_delimited:
  assumes "0 < f"
  shows "parse_fields (len_delimited f p @ rest) =
     map_option ((#) (f, LengthDelimited p)) (parse_fields rest)"
  by (rule parse_fields_step) (rule read_field_len_delimited [OF assms])

lemma parse_fields_concat:
  assumes "0 < f"
  shows "parse_fields (concat (map (len_delimited f) ps)) =
     Some (map (\<lambda>p. (f, LengthDelimited p)) ps)"
  by (induction ps) (simp_all add: parse_fields_Nil parse_fields_len_delimited [OF assms])

lemma parse_fields_single:
  assumes "0 < f"
  shows "parse_fields (len_delimited f p) = Some [(f, LengthDelimited p)]"
  using parse_fields_len_delimited [OF assms, of p "[]"] by (simp add: parse_fields_Nil)

lemma read_varints_concat: "read_varints (concat (map varint ns)) = Some ns"
proof (induction ns)
  case Nil
  then show ?case by (simp add: read_varints.simps)
next
  case (Cons n ns)
  then show ?case
    by (subst read_varints.simps) (simp add: read_varint_varint varint_not_Nil)
qed

lemma to_int64_bits:
  assumes "fits_int64 v"
  shows "to_int64 (int64_bits v) = v"
proof (cases "0 \<le> v")
  case True
  with assms have "v mod 2 ^ 64 = v"
    by (simp add: fits_int64_def)
  with True assms show ?thesis
    by (simp add: to_int64_def int64_bits_def fits_int64_def Let_def)
next
  case False
  with assms have "(v + 2 ^ 64) mod 2 ^ 64 = v + 2 ^ 64"
    by (intro mod_pos_pos_trivial) (simp_all add: fits_int64_def)
  then have "v mod 2 ^ 64 = v + 2 ^ 64"
    by simp
  with False assms show ?thesis
    by (simp add: to_int64_def int64_bits_def fits_int64_def Let_def)
qed

lemma payloads_of_same:
  "payloads_of f (map (\<lambda>p. (f, LengthDelimited p)) ps) = ps"
  by (induction ps) (simp_all add: payloads_of_def)

lemma decode_bytes_list_encoded: "decode_bytes_list (encode_bytes_list vs) = Some vs"
  by (simp add: decode_bytes_list_def encode_bytes_list_def parse_fields_concat payloads_of_same)

lemma decode_float_list_encoded: "decode_float_list (encode_float_list packed) = Some packed"
  by (simp add: decode_float_list_def encode_float_list_def parse_fields_Nil parse_fields_single)

lemma decode_int64_list_encoded:
  assumes "list_all fits_int64 vs"
  shows "decode_int64_list (encode_int64_list vs) = Some vs"
proof (cases "vs = []")
  case True
  then show ?thesis
    by (simp add: decode_int64_list_def encode_int64_list_def parse_fields_Nil)
next
  case False
  have "concat (map (\<lambda>v. varint (int64_bits v)) vs) = concat (map varint (map int64_bits vs))"
    by (simp add: comp_def)
  then have "read_varints (concat (map (\<lambda>v. varint (int64_bits v)) vs)) = Some (map int64_bits vs)"
    by (simp only: read_varints_concat)
  moreover from assms have "map to_int64 (map int64_bits vs) = vs"
    by (induction vs) (simp_all add: to_int64_bits)
  ultimately show ?thesis
    using False
    by (simp add: decode_int64_list_def encode_int64_list_def parse_fields_single int64_values_def)
qed

lemma decode_feature_encoded:
  assumes "feature_fits f"
  shows "decode_feature (encode_feature f) = Some f"
proof (cases f)
  case (BytesList vs)
  then show ?thesis
    by (simp add: decode_feature_def encode_feature_def parse_fields_single kind_fields_def
        decode_bytes_list_encoded)
next
  case (FloatList packed)
  then show ?thesis
    by (simp add: decode_feature_def encode_feature_def parse_fields_single kind_fields_def
        decode_float_list_encoded)
next
  case (Int64List vs)
  with assms have "list_all fits_int64 vs"
    by (simp add: feature_fits_def)
  from decode_int64_list_encoded [OF this] Int64List show ?thesis
    by (simp add: decode_feature_def encode_feature_def parse_fields_single kind_fields_def)
next
  case KindNotSet
  then show ?thesis
    by (simp add: decode_feature_def encode_feature_def parse_fields_Nil kind_fields_def)
qed

lemma from_utf8_utf8: "from_utf8 (utf8 s) = s"
proof -
  have "char_of (unat (of_nat (of_char c) :: byte)) = c" for c
    by (simp add: unat_of_nat)
  then show ?thesis
    by (simp add: from_utf8_def utf8_def comp_def)
qed

lemma decode_entry_encoded:
  assumes "feature_fits (snd kv)"
  shows "decode_entry (encode_entry kv) = Some kv"
proof -
  have "parse_fields (encode_entry kv) =
      Some [(1, LengthDelimited (utf8 (fst kv))), (2, LengthDelimited (encode_feature (snd kv)))]"
    by (simp add: encode_entry_def parse_fields_len_delimited parse_fields_single)
  then show ?thesis
    by (simp add: decode_entry_def payloads_of_def decode_feature_encoded [OF assms] from_utf8_utf8)
qed

lemma decode_features_encoded:
  assumes "list_all (\<lambda>kv. feature_fits (snd kv)) ex"
  shows "decode_features (encode_features ex) = Some ex"
proof -
  have fields: "parse_fields (encode_features ex) =
      Some (map (\<lambda>p. (1, LengthDelimited p)) (map encode_entry ex))"
    unfolding encode_features_def by (rule parse_fields_concat) simp
  from assms have entries: "those (map decode_entry (map encode_entry ex)) = Some ex"
    by (induction ex) (simp_all add: decode_entry_encoded)
  show ?thesis
    unfolding decode_features_def fields option.case payloads_of_same by (rule entries)
qed

lemma wire_order_set: "set (wire_order rank ex) = set ex"
  by (simp add: wire_order_def)

lemma ParseFromString_SerializeToString:
  assumes "list_all (\<lambda>kv. feature_fits (snd kv)) ex"
  shows "ParseFromString (SerializeToString rank ex) = Some (wire_order rank ex)"
proof -
  from assms have "list_all (\<lambda>kv. feature_fits (snd kv)) (wire_order rank ex)"
    by (simp add: list_all_iff wire_order_set)
  from decode_features_encoded [OF this] show ?thesis
    by (simp add: ParseFromString_def SerializeToString_def parse_fields_single payloads_of_def)
qed

lemma feature_named_wire_order:
  assumes "distinct (map fst ex)"
  shows "feature_named (wire_order rank ex) key = feature_named ex key"
proof -
  from assms have d: "distinct ex" and i: "inj_on fst (set ex)"
    by (simp_all add: distinct_map)
  have "distinct (map fst (rev (wire_order rank ex)))"
    using d i by (simp add: distinct_map wire_order_def)
  moreover have "distinct (map fst (rev ex))"
    using d i by (simp add: distinct_map)
  moreover have "set (rev (wire_order rank ex)) = set (rev ex)"
    by (simp add: wire_order_set)
  ultimately have "map_of (rev (wire_order rank ex)) = map_of (rev ex)"
    by (simp only: map_of_inject_set)
  then show ?thesis
    by (simp add: feature_named_def)
qed

section \<open>Properties of the record writer\<close>

lemma write_samples_console:
  "length (console m) \<le> length (console (snd (write_samples resize rank tfr_file n pairs m)))"
proof (induction pairs arbitrary: n m)
  case Nil
  then show ?case by simp
next
  case (Cons pl pairs)
  obtain path lbl where pl: "pl = (path, lbl)"
    by (cases pl)
  show ?case
    unfolding pl
    by (auto simp: Let_def print_def split: sum.splits intro!: order_trans [OF _ Cons.IH])
qed

lemma make_tfr_console:
  "length (console m) < length (console (snd (make_tfr resize rank paths labels tfr_file m)))"
proof -
  have "length (console m1) \<le> length (console m2)"
    if "write_samples resize rank tfr_file 0 (zip paths labels) m1 = (r, m2)" for m1 r m2
    using write_samples_console [of m1 resize rank tfr_file 0 "zip paths labels"] that by simp
  then show ?thesis
    by (fastforce simp: make_tfr_def Let_def print_def split: sum.splits prod.splits)
qed

lemma write_path_leaves_trace: "write_path resize rank nb \<noteq> (Inr (), nb)"
proof (cases "read_labeled_image_list (disk (machine nb)) IMG_DIR LABEL_TXT_PATH")
  case (Inl e)
  then show ?thesis by (simp add: write_path_def)
next
  case (Inr r)
  obtain paths labels where r: "r = (paths, labels)"
    by (cases r)
  obtain res m where m: "make_tfr resize rank paths labels TFR_FILE (machine nb) = (res, m)"
    by (cases "make_tfr resize rank paths labels TFR_FILE (machine nb)")
  from make_tfr_console [of "machine nb" resize rank paths labels TFR_FILE] m
  have differs: "machine nb \<noteq> m"
    by auto
  show ?thesis
  proof
    assume "write_path resize rank nb = (Inr (), nb)"
    with Inr r m
    have "nb\<lparr>all_image_paths := Some paths, all_labels := Some labels, machine := m\<rparr> = nb"
      by (simp add: write_path_def Let_def)
    then have "machine (nb\<lparr>all_image_paths := Some paths, all_labels := Some labels, machine := m\<rparr>) =
        machine nb"
      by (rule arg_cong)
    with differs show False by simp
  qed
qed

lemma split_write_path_leaves_trace:
  "split_write_path resize rank train_test_split nb \<noteq> (Inr (), nb)"
proof
  assume same: "split_write_path resize rank train_test_split nb = (Inr (), nb)"
  then obtain paths labels where
    r: "read_labeled_image_list (disk (machine nb)) IMG_DIR LABEL_TXT_PATH = Inr (paths, labels)"
    by (cases "read_labeled_image_list (disk (machine nb)) IMG_DIR LABEL_TXT_PATH")
      (auto simp: split_write_path_def)
  from same r obtain trp tep trl tel where
    s: "train_test_split paths labels = Inr (trp, tep, trl, tel)"
    by (cases "train_test_split paths labels") (auto simp: split_write_path_def Let_def)
  obtain r1 m1 where m1: "make_tfr resize rank trp trl TFR_TRAIN (machine nb) = (r1, m1)"
    by (cases "make_tfr resize rank trp trl TFR_TRAIN (machine nb)")
  obtain r2 m2 where m2: "make_tfr resize rank tep tel TFR_TEST m1 = (r2, m2)"
    by (cases "make_tfr resize rank tep tel TFR_TEST m1")
  from make_tfr_console [of "machine nb" resize rank trp trl TFR_TRAIN] m1
  have l1: "length (console (machine nb)) < length (console m1)"
    by simp
  from make_tfr_console [of m1 resize rank tep tel TFR_TEST] m2
  have l2: "length (console m1) < length (console m2)"
    by simp
  from r s m1 m2 have "machine (snd (split_write_path resize rank train_test_split nb)) = m1 \<or>
      machine (snd (split_write_path resize rank train_test_split nb)) = m2"
    by (auto simp: split_write_path_def Let_def split: sum.splits)
  with same l1 l2 show False by auto
qed






section \<open>Properties of rounding\<close>

lemma pow2_pos [simp]: "0 < pow2 e"
  by (simp add: pow2_def)

lemma pow2_add: "pow2 (a + b) = pow2 a * pow2 b"
  by (simp add: pow2_def power_int_add)

lemma pow2_diff: "pow2 (a - b) = pow2 a / pow2 b"
  by (simp add: pow2_def power_int_diff)

lemma pow2_mono: "a \<le> b \<Longrightarrow> pow2 a \<le> pow2 b"
  by (simp add: pow2_def power_int_increasing)

lemma pow2_strict_mono: "a < b \<Longrightarrow> pow2 a < pow2 b"
  by (simp add: pow2_def power_int_strict_increasing)

lemma pow2_less_cancel: "pow2 a < pow2 b \<Longrightarrow> a < b"
  using pow2_mono [of b a] by (cases "a < b") auto

lemma pow2_nat: "pow2 (int n) = 2 ^ n"
  by (simp add: pow2_def)

lemma pow2_nonneg_int: "0 \<le> e \<Longrightarrow> pow2 e = of_int (2 ^ nat e)"
  by (simp add: pow2_def power_int_def)

lemma ilog2_bounds:
  assumes "0 < x"
  shows "pow2 (ilog2 x) \<le> x" and "x < pow2 (ilog2 x + 1)"
proof -
  obtain p q where pq: "quotient_of x = (p, q)"
    by (cases "quotient_of x")
  have q: "0 < q" and x: "x = of_int p / of_int q"
    using quotient_of_denom_pos [OF pq] quotient_of_div [OF pq] by simp_all
  with assms have p: "0 < p"
    by (simp add: zero_less_divide_iff)
  define fp fq where "fp = floorlog 2 (nat p)" and "fq = floorlog 2 (nat q)"
  define d where "d = int fp - int fq"
  from floorlog_bounds [of "nat p" 2] p
  have bp: "2 ^ (fp - 1) \<le> nat p" "nat p < 2 ^ fp"
    by (simp_all add: fp_def)
  from floorlog_bounds [of "nat q" 2] q
  have bq: "2 ^ (fq - 1) \<le> nat q" "nat q < 2 ^ fq"
    by (simp_all add: fq_def)
  have fp1: "1 \<le> fp" and fq1: "1 \<le> fq"
    using p q by (simp_all add: fp_def fq_def floorlog_def)
  have rp: "(2::rat) ^ (fp - 1) \<le> of_int p" "of_int p < (2::rat) ^ fp"
  proof -
    from bp(1) have "of_nat (2 ^ (fp - 1)) \<le> (of_nat (nat p) :: rat)"
      by (simp only: of_nat_le_iff)
    with p show "(2::rat) ^ (fp - 1) \<le> of_int p"
      by simp
    from bp(2) have "(of_nat (nat p) :: rat) < of_nat (2 ^ fp)"
      by (simp only: of_nat_less_iff)
    with p show "of_int p < (2::rat) ^ fp"
      by simp
  qed
  have rq: "(2::rat) ^ (fq - 1) \<le> of_int q" "of_int q < (2::rat) ^ fq"
  proof -
    from bq(1) have "of_nat (2 ^ (fq - 1)) \<le> (of_nat (nat q) :: rat)"
      by (simp only: of_nat_le_iff)
    with q show "(2::rat) ^ (fq - 1) \<le> of_int q"
      by simp
    from bq(2) have "(of_nat (nat q) :: rat) < of_nat (2 ^ fq)"
      by (simp only: of_nat_less_iff)
    with q show "of_int q < (2::rat) ^ fq"
      by simp
  qed
  have qpos: "(0::rat) < of_int q"
    using q by simp
  have lower: "pow2 (d - 1) < x"
  proof -
    have "pow2 (d - 1) = 2 ^ (fp - 1) / 2 ^ fq"
      using fp1 by (simp add: d_def pow2_diff pow2_nat [symmetric] of_nat_diff)
    also have "\<dots> < 2 ^ (fp - 1) / of_int q"
      using rq(2) qpos by (intro divide_strict_left_mono) simp_all
    also have "\<dots> \<le> of_int p / of_int q"
      using rp(1) qpos by (intro divide_right_mono) simp_all
    finally show ?thesis by (simp add: x)
  qed
  have upper: "x < pow2 (d + 1)"
  proof -
    have "x < 2 ^ fp / of_int q"
      unfolding x using rp(2) qpos by (intro divide_strict_right_mono) simp_all
    also have "\<dots> \<le> 2 ^ fp / 2 ^ (fq - 1)"
      using rq(1) qpos by (intro divide_left_mono) simp_all
    also have "\<dots> = pow2 (d + 1)"
    proof -
      have "d + 1 = int fp - int (fq - 1)"
        using fq1 by (simp add: d_def)
      then show ?thesis
        by (simp only: pow2_diff pow2_nat)
    qed
    finally show ?thesis .
  qed
  have il: "ilog2 x = (if pow2 d \<le> x then d else d - 1)"
    by (simp add: ilog2_def pq fp_def fq_def d_def Let_def)
  show "pow2 (ilog2 x) \<le> x"
    using lower by (simp add: il)
  show "x < pow2 (ilog2 x + 1)"
    using upper by (auto simp: il not_le)
qed

lemma ilog2_le:
  assumes "0 < x" and "x \<le> pow2 k"
  shows "ilog2 x \<le> k"
proof -
  from ilog2_bounds(1) [OF assms(1)] assms(2) have "pow2 (ilog2 x) \<le> pow2 k"
    by simp
  then show ?thesis
    using pow2_strict_mono [of k "ilog2 x"] by (cases "ilog2 x \<le> k") auto
qed

lemma round_half_even_error: "\<bar>of_int (round_half_even q) - q\<bar> \<le> 1 / 2"
proof -
  have "of_int \<lfloor>q\<rfloor> \<le> q" and "q < of_int \<lfloor>q\<rfloor> + 1"
    by linarith+
  then show ?thesis
    by (auto simp: round_half_even_def Let_def abs_le_iff; linarith)
qed

lemma round_half_even_le:
  assumes "q \<le> of_int m"
  shows "round_half_even q \<le> m"
proof -
  from assms have f: "\<lfloor>q\<rfloor> \<le> m"
    by (simp add: floor_le_iff)
  show ?thesis
  proof (cases "q = of_int \<lfloor>q\<rfloor>")
    case True
    then have "q - of_int \<lfloor>q\<rfloor> = 0"
      by simp
    then show ?thesis
      using f by (simp add: round_half_even_def Let_def)
  next
    case False
    have "of_int \<lfloor>q\<rfloor> \<le> q"
      by simp
    with assms False have "(of_int \<lfloor>q\<rfloor> :: rat) < of_int m"
      by linarith
    then have "\<lfloor>q\<rfloor> + 1 \<le> m"
      by simp
    then show ?thesis
      using f by (simp add: round_half_even_def Let_def)
  qed
qed

lemma round_half_even_nonneg:
  assumes "0 \<le> q"
  shows "0 \<le> round_half_even q"
proof -
  from assms have "0 \<le> \<lfloor>q\<rfloor>"
    by simp
  then show ?thesis
    by (simp add: round_half_even_def Let_def)
qed

lemma round_binary_abs:
  assumes "x \<noteq> 0"
  shows "\<bar>round_binary p emin x\<bar> =
     of_int (round_half_even (\<bar>x\<bar> / pow2 (max (ilog2 \<bar>x\<bar>) emin - (int p - 1)))) *
       pow2 (max (ilog2 \<bar>x\<bar>) emin - (int p - 1))"
proof -
  have "0 \<le> round_half_even (\<bar>x\<bar> / pow2 (max (ilog2 \<bar>x\<bar>) emin - (int p - 1)))"
    by (rule round_half_even_nonneg) (simp add: less_imp_le)
  with assms show ?thesis
    by (simp add: round_binary_def Let_def abs_mult abs_sgn_eq less_imp_le)
qed

lemma round_binary_abs_le:
  assumes "\<bar>x\<bar> \<le> pow2 k" and "emin \<le> k" and "0 < p"
  shows "\<bar>round_binary p emin x\<bar> \<le> pow2 k"
proof (cases "x = 0")
  case True
  then show ?thesis
    by (simp add: round_binary_def less_imp_le)
next
  case False
  define e where "e = max (ilog2 \<bar>x\<bar>) emin"
  define ulp where "ulp = pow2 (e - (int p - 1))"
  from False have pos: "0 < \<bar>x\<bar>"
    by simp
  from ilog2_le [OF pos assms(1)] assms(2) have ek: "e \<le> k"
    by (simp add: e_def)
  have ulp: "0 < ulp"
    by (simp add: ulp_def)
  define M where "M = (2::int) ^ nat (k - e + int p - 1)"
  have M: "pow2 k = of_int M * ulp"
  proof -
    have "0 \<le> k - e + int p - 1"
      using ek assms(3) by simp
    from pow2_nonneg_int [OF this] have "of_int M = pow2 (k - e + int p - 1)"
      by (simp add: M_def)
    then have "of_int M * ulp = pow2 ((k - e + int p - 1) + (e - (int p - 1)))"
      by (simp only: pow2_add ulp_def)
    then show ?thesis
      by simp
  qed
  have "\<bar>x\<bar> / ulp \<le> of_int M"
    using assms(1) ulp by (simp add: M pos_divide_le_eq)
  from round_half_even_le [OF this] have "of_int (round_half_even (\<bar>x\<bar> / ulp)) * ulp \<le> of_int M * ulp"
    using ulp by (simp add: mult_right_mono)
  then show ?thesis
    using round_binary_abs [OF False, of p emin] by (simp add: M e_def ulp_def)
qed

lemma round_binary_nonneg:
  assumes "0 \<le> x"
  shows "0 \<le> round_binary p emin x"
proof (cases "x = 0")
  case True
  then show ?thesis by (simp add: round_binary_def)
next
  case False
  with assms have "sgn x = 1"
    by simp
  moreover have "0 \<le> round_half_even (\<bar>x\<bar> / pow2 (max (ilog2 \<bar>x\<bar>) emin - (int p - 1)))"
    by (rule round_half_even_nonneg) (simp add: less_imp_le)
  ultimately show ?thesis
    using False by (simp add: round_binary_def Let_def less_imp_le)
qed

lemma round_binary_error:
  assumes "\<bar>x\<bar> \<le> pow2 k" and "emin \<le> k"
  shows "\<bar>round_binary p emin x - x\<bar> \<le> pow2 (k - (int p - 1)) / 2"
proof (cases "x = 0")
  case True
  then show ?thesis
    by (simp add: round_binary_def less_imp_le)
next
  case False
  define e where "e = max (ilog2 \<bar>x\<bar>) emin"
  define ulp where "ulp = pow2 (e - (int p - 1))"
  define n where "n = round_half_even (\<bar>x\<bar> / ulp)"
  from False have pos: "0 < \<bar>x\<bar>"
    by simp
  from ilog2_le [OF pos assms(1)] assms(2) have ek: "e \<le> k"
    by (simp add: e_def)
  have ulp: "0 < ulp"
    by (simp add: ulp_def)
  have r: "round_binary p emin x = sgn x * of_int n * ulp"
    using False by (simp add: round_binary_def Let_def e_def ulp_def n_def)
  have "round_binary p emin x - x = sgn x * ((of_int n - \<bar>x\<bar> / ulp) * ulp)"
  proof -
    have "\<bar>x\<bar> * sgn x = x"
      by (simp add: abs_mult_sgn)
    then show ?thesis
      using ulp by (simp add: r algebra_simps)
  qed
  then have "\<bar>round_binary p emin x - x\<bar> = \<bar>of_int n - \<bar>x\<bar> / ulp\<bar> * ulp"
    using False ulp by (simp add: abs_mult abs_sgn_eq less_imp_le)
  also have "\<dots> \<le> 1 / 2 * ulp"
    using round_half_even_error [of "\<bar>x\<bar> / ulp"] ulp
    by (intro mult_right_mono) (simp_all add: n_def less_imp_le)
  also have "\<dots> \<le> 1 / 2 * pow2 (k - (int p - 1))"
    using ek by (intro mult_left_mono) (simp_all add: ulp_def pow2_mono)
  finally show ?thesis by simp
qed

lemma ilog2_eq:
  assumes "0 < x" and "pow2 e \<le> x" and "x < pow2 (e + 1)"
  shows "ilog2 x = e"
proof -
  from ilog2_bounds [OF assms(1)] have "pow2 (ilog2 x) < pow2 (e + 1)" and "pow2 e < pow2 (ilog2 x + 1)"
    using assms(2,3) by linarith+
  then have "ilog2 x < e + 1" and "e < ilog2 x + 1"
    by (auto dest: pow2_less_cancel)
  then show ?thesis
    by linarith
qed

lemma round_half_even_eq:
  assumes "\<bar>q - of_int m\<bar> < 1 / 2"
  shows "round_half_even q = m"
proof (cases "of_int m \<le> q")
  case True
  with assms have "q < of_int m + 1"
    by linarith
  with True have f: "\<lfloor>q\<rfloor> = m"
    by linarith
  with assms True show ?thesis
    by (simp add: round_half_even_def Let_def)
next
  case False
  with assms have "of_int (m - 1) \<le> q" and "q < of_int (m - 1) + 1"
    by simp_all
  then have f: "\<lfloor>q\<rfloor> = m - 1"
    by linarith
  have "1 / 2 < q - of_int (m - 1)"
    using assms False by simp
  with f show ?thesis
    by (simp add: round_half_even_def Let_def)
qed

lemma round_binary_eq:
  assumes "0 < x" and "pow2 e \<le> x" and "x < pow2 (e + 1)" and "emin \<le> e"
    and "\<bar>x / pow2 (e - (int p - 1)) - of_int m\<bar> < 1 / 2"
  shows "round_binary p emin x = of_int m * pow2 (e - (int p - 1))"
proof -
  from assms(1-3) have "ilog2 x = e"
    by (rule ilog2_eq)
  moreover from assms(5) have "round_half_even (x / pow2 (e - (int p - 1))) = m"
    by (rule round_half_even_eq)
  ultimately show ?thesis
    using assms(1,4) by (simp add: round_binary_def Let_def max_def)
qed

lemma round_binary_minus: "round_binary p emin (- x) = - round_binary p emin x"
  by (simp add: round_binary_def Let_def)

lemma pow2_numerals:
  "pow2 (- 7) = 1 / 128" "pow2 (- 6) = 1 / 64" "pow2 (- 59) = 1 / 2 ^ 59" "pow2 (- 30) = 1 / 2 ^ 30"
  "pow2 0 = 1" "pow2 1 = 2" "pow2 2 = 4" "pow2 (- 23) = 1 / 2 ^ 23" "pow2 (- 22) = 1 / 2 ^ 22"
  "pow2 (- 21) = 1 / 2 ^ 21"
  by (simp_all add: pow2_def power_int_minus field_simps)

lemma float64_two_over_255: "float64 (2 / 255) = 4521260802379792 / 2 ^ 59"
proof -
  have "round_binary 53 (- 1022) (2 / 255) = of_int 4521260802379792 * pow2 (- 7 - (int 53 - 1))"
    by (rule round_binary_eq) (simp_all add: pow2_numerals)
  then show ?thesis
    by (simp add: float64_def pow2_numerals)
qed

lemma two_over_255_value: "two_over_255 = 8421505 / 1073741824"
proof -
  have "round_binary 24 (- 126) (4521260802379792 / 2 ^ 59) = of_int 8421505 * pow2 (- 7 - (int 24 - 1))"
    by (rule round_binary_eq) (simp_all add: pow2_numerals)
  then show ?thesis
    by (simp add: two_over_255_def float64_two_over_255 float32_def pow2_numerals)
qed

lemma float32_0: "float32 0 = 0"
  by (simp add: float32_def round_binary_def)

lemma float32_1: "float32 1 = 1"
proof -
  have "round_binary 24 (- 126) 1 = of_int 8388608 * pow2 (0 - (int 24 - 1))"
    by (rule round_binary_eq) (simp_all add: pow2_numerals)
  then show ?thesis
    by (simp add: float32_def pow2_numerals)
qed

lemma float32_minus_1: "float32 (- 1) = - 1"
  using round_binary_minus [of 24 "- 126" 1] float32_1 by (simp add: float32_def)

lemma normalize_pixel_0: "normalize_pixel 0 = - 1"
  by (simp add: normalize_pixel_def float32_0 float32_minus_1)

lemma normalize_pixel_255: "normalize_pixel 255 = 1"
proof -
  have "round_binary 24 (- 126) (255 * (8421505 / 1073741824)) = of_int 8388608 * pow2 (1 - (int 24 - 1))"
    by (rule round_binary_eq) (simp_all add: pow2_numerals)
  then have "float32 (255 * two_over_255) = 2"
    by (simp add: float32_def two_over_255_value pow2_numerals)
  then show ?thesis
    by (simp add: normalize_pixel_def float32_1)
qed

lemma of_nat_le_numeral:
  assumes "n \<le> numeral k"
  shows "(of_nat n :: rat) \<le> numeral k"
proof -
  from assms have "(of_nat n :: rat) \<le> of_nat (numeral k)"
    by (simp only: of_nat_le_iff)
  then show ?thesis
    by simp
qed

lemma scaled_pixel_bounds:
  assumes "n \<le> 254"
  shows "0 \<le> of_nat n * two_over_255" and "of_nat n * two_over_255 \<le> 2"
proof -
  show "0 \<le> of_nat n * two_over_255"
    by (simp add: two_over_255_value)
  from of_nat_le_numeral [OF assms]
  have "of_nat n * (8421505 / 1073741824 :: rat) \<le> 254 * (8421505 / 1073741824)"
    by (rule mult_right_mono) simp
  also have "\<dots> \<le> 2"
    by simp
  finally show "of_nat n * two_over_255 \<le> 2"
    by (simp only: two_over_255_value)
qed

lemma scaled_pixel_float32:
  assumes "n \<le> 254"
  shows "0 \<le> float32 (of_nat n * two_over_255)" and "float32 (of_nat n * two_over_255) \<le> 2"
    and "\<bar>float32 (of_nat n * two_over_255) - of_nat n * two_over_255\<bar> \<le> 1 / 2 ^ 23"
proof -
  define x where "x = of_nat n * two_over_255"
  from scaled_pixel_bounds [OF assms] have x0: "0 \<le> x" and x2: "\<bar>x\<bar> \<le> pow2 1"
    by (simp_all add: x_def pow2_numerals)
  from round_binary_nonneg [OF x0] show "0 \<le> float32 (of_nat n * two_over_255)"
    by (simp add: float32_def x_def)
  from round_binary_abs_le [OF x2, of "- 126" 24] show "float32 (of_nat n * two_over_255) \<le> 2"
    by (simp add: float32_def x_def pow2_numerals)
  from round_binary_error [OF x2, of "- 126" 24]
  have "\<bar>float32 x - x\<bar> \<le> pow2 (- 22) / 2"
    by (simp add: float32_def)
  then show "\<bar>float32 (of_nat n * two_over_255) - of_nat n * two_over_255\<bar> \<le> 1 / 2 ^ 23"
    by (simp add: x_def pow2_numerals)
qed

lemma normalize_pixel_254:
  assumes "n \<le> 254"
  shows "\<bar>normalize_pixel (of_nat n)\<bar> \<le> 1"
    and "\<bar>normalize_pixel (of_nat n) - (of_nat n * (2 / 255) - 1)\<bar> \<le> 1 / 2 ^ 21"
proof -
  define x where "x = of_nat n * two_over_255"
  define y where "y = float32 x - 1"
  from scaled_pixel_float32 [OF assms] have fx: "0 \<le> float32 x" "float32 x \<le> 2"
    and e1: "\<bar>float32 x - x\<bar> \<le> 1 / 2 ^ 23"
    by (simp_all add: x_def)
  from fx have y1: "\<bar>y\<bar> \<le> pow2 0"
    by (simp add: y_def pow2_numerals abs_le_iff)
  from round_binary_abs_le [OF y1, of "- 126" 24] have "\<bar>float32 y\<bar> \<le> 1"
    by (simp add: float32_def pow2_numerals)
  then show "\<bar>normalize_pixel (of_nat n)\<bar> \<le> 1"
    by (simp add: normalize_pixel_def x_def y_def)
  from round_binary_error [OF y1, of "- 126" 24] have "\<bar>float32 y - y\<bar> \<le> pow2 (- 23) / 2"
    by (simp add: float32_def)
  then have e2: "\<bar>float32 y - y\<bar> \<le> 1 / 2 ^ 24"
    by (simp add: pow2_numerals)
  have "x - of_nat n * (2 / 255) = of_nat n * (127 / 273804165120)"
    by (simp add: x_def two_over_255_value algebra_simps)
  moreover from of_nat_le_numeral [OF assms]
  have "of_nat n * (127 / 273804165120 :: rat) \<le> 254 * (127 / 273804165120)"
    by (rule mult_right_mono) simp
  moreover have "(0::rat) \<le> of_nat n * (127 / 273804165120)"
    by simp
  ultimately have e3: "0 \<le> x - of_nat n * (2 / 255)" "x - of_nat n * (2 / 255) \<le> 1 / 2 ^ 23"
    by simp_all
  have "\<bar>float32 y - (of_nat n * (2 / 255) - 1)\<bar> \<le> 1 / 2 ^ 23 + 1 / 2 ^ 24 + 1 / 2 ^ 23"
    using e1 e2 e3 unfolding y_def by (simp only: abs_le_iff) linarith
  also have "\<dots> \<le> 1 / 2 ^ 21"
    by simp
  finally show "\<bar>normalize_pixel (of_nat n) - (of_nat n * (2 / 255) - 1)\<bar> \<le> 1 / 2 ^ 21"
    by (simp add: normalize_pixel_def x_def y_def)
qed

lemma normalize_pixel_range:
  assumes "n \<le> 255"
  shows "- 1 \<le> normalize_pixel (of_nat n) \<and> normalize_pixel (of_nat n) \<le> 1"
proof (cases "n = 255")
  case True
  then show ?thesis
    by (simp add: normalize_pixel_255)
next
  case False
  with assms have "n \<le> 254"
    by simp
  from normalize_pixel_254(1) [OF this] show ?thesis
    by (simp add: abs_le_iff)
qed

lemma normalize_pixel_error:
  assumes "n \<le> 255"
  shows "\<bar>normalize_pixel (of_nat n) - (of_nat n * (2 / 255) - 1)\<bar> \<le> 1 / 2 ^ 21"
proof (cases "n = 255")
  case True
  then show ?thesis
    by (simp add: normalize_pixel_255)
next
  case False
  with assms have "n \<le> 254"
    by simp
  then show ?thesis
    by (rule normalize_pixel_254(2))
qed

section \<open>Facts about the input pipeline\<close>

lemma parse_protocol_buffer_serialized:
  assumes "list_all fits_int64 lbl" and "length lbl = 2"
  shows "parse_protocol_buffer
      (SerializeToString rank [(''image_raw'', BytesList [raw]), (''label'', Int64List lbl)]) =
    Inr (raw, \<lparr>shape = [2], buffer = lbl\<rparr>)"
proof -
  let ?ex = "[(''image_raw'', BytesList [raw]), (''label'', Int64List lbl)]"
  from assms(1) have "list_all (\<lambda>kv. feature_fits (snd kv)) ?ex"
    by (simp add: feature_fits_def)
  then have p: "ParseFromString (SerializeToString rank ?ex) = Some (wire_order rank ?ex)"
    by (rule ParseFromString_SerializeToString)
  have "distinct (map fst ?ex)"
    by simp
  then have n: "feature_named (wire_order rank ?ex) key = feature_named ?ex key" for key
    by (rule feature_named_wire_order)
  have i: "feature_named ?ex ''image_raw'' = Some (BytesList [raw])"
    and l: "feature_named ?ex ''label'' = Some (Int64List lbl)"
    by (simp_all add: feature_named_def)
  show ?thesis
    using assms(2)
    by (simp add: parse_protocol_buffer_def p fixed_len_string_def fixed_len_int64_def n i l)
qed

lemma convert_parsed_proto_to_input_Inr:
  assumes "length raw = 49152" and "length (buffer lbl) = 2"
  shows "convert_parsed_proto_to_input (raw, lbl) =
    Inr \<lparr>image = \<lparr>shape = [128, 128, 3], buffer = map (\<lambda>b. normalize_pixel (of_nat (unat b))) raw\<rparr>,
         label = \<lparr>shape = [2], buffer = map (\<lambda>v. float32 (of_int v)) (buffer lbl)\<rparr>\<rparr>"
  using assms
  by (simp add: convert_parsed_proto_to_input_def tf_decode_raw_def tf_reshape_def
      cast_uint8_float32_def cast_int64_float32_def tensor_map_def Let_def)

lemma convert_parsed_proto_to_input_shapes:
  assumes "convert_parsed_proto_to_input parsed = Inr s"
  shows "shape (image s) = [128, 128, 3]" and "shape (label s) = [2]"
    and "length (buffer (image s)) = 49152" and "length (buffer (label s)) = 2"
    and "buffer (image s) = map (\<lambda>b. normalize_pixel (of_nat (unat b))) (fst parsed)"
  using assms
  by (auto simp: convert_parsed_proto_to_input_def tf_decode_raw_def tf_reshape_def
      cast_uint8_float32_def cast_int64_float32_def tensor_map_def Let_def
      split: if_splits)

lemma load_record_shapes:
  assumes "load_record r = Inr s"
  shows "shape (image s) = [128, 128, 3]" and "shape (label s) = [2]"
  using assms convert_parsed_proto_to_input_shapes(1,2)
  by (auto simp: load_record_def split: sum.splits)

lemma draw_less:
  assumes "0 < k"
  shows "fst (draw k rng) < k"
  using assms by (simp add: draw_def split: list.splits)

lemma mset_remove_nth:
  assumes "i < length buf"
  shows "add_mset (buf ! i) (mset (take i buf @ drop (Suc i) buf)) = mset buf"
proof -
  from assms have "buf = take i buf @ buf ! i # drop (Suc i) buf"
    by (simp add: id_take_nth_drop [symmetric])
  then have "mset buf = mset (take i buf @ buf ! i # drop (Suc i) buf)"
    by simp
  then show ?thesis
    by simp
qed

lemma mset_replace_nth:
  assumes "i < length buf"
  shows "add_mset (buf ! i) (mset (buf[i := y])) = add_mset y (mset buf)"
proof -
  from assms have b: "buf = take i buf @ buf ! i # drop (Suc i) buf"
    by (simp add: id_take_nth_drop [symmetric])
  from assms have "buf[i := y] = take i buf @ y # drop (Suc i) buf"
    by (simp add: upd_conv_take_nth_drop)
  then have "add_mset (buf ! i) (mset (buf[i := y])) =
      add_mset y (mset (take i buf @ buf ! i # drop (Suc i) buf))"
    by simp
  with b show ?thesis
    by simp
qed

lemma shuffle_run_mset:
  assumes "buf = [] \<Longrightarrow> incoming = []"
  shows "mset (fst (shuffle_run buf incoming rng)) = mset buf + mset incoming"
  using assms
proof (induction "length buf + length incoming" arbitrary: buf incoming rng rule: less_induct)
  case less
  show ?case
  proof (cases "buf = []")
    case True
    with less.prems show ?thesis
      by (subst shuffle_run.simps) simp
  next
    case False
    obtain i rng1 where d: "draw (length buf) rng = (i, rng1)"
      by (cases "draw (length buf) rng")
    from False draw_less [of "length buf" rng] d have i: "i < length buf"
      by simp
    show ?thesis
    proof (cases incoming)
      case Nil
      from i have "length (take i buf @ drop (Suc i) buf) + length ([] :: 'a list) <
          length buf + length incoming"
        by simp
      from less.hyps [OF this, of rng1]
      have "mset (fst (shuffle_run (take i buf @ drop (Suc i) buf) [] rng1)) =
          mset (take i buf @ drop (Suc i) buf)"
        by simp
      moreover obtain out rng2 where
        "shuffle_run (take i buf @ drop (Suc i) buf) [] rng1 = (out, rng2)"
        by (cases "shuffle_run (take i buf @ drop (Suc i) buf) [] rng1")
      ultimately show ?thesis
        using mset_remove_nth [OF i] False Nil d by (subst shuffle_run.simps) simp
    next
      case (Cons y ys)
      then have "length (buf[i := y]) + length ys < length buf + length incoming"
        by simp
      from less.hyps [OF this, of rng1] False
      have "mset (fst (shuffle_run (buf[i := y]) ys rng1)) = mset (buf[i := y]) + mset ys"
        by simp
      moreover obtain out rng2 where "shuffle_run (buf[i := y]) ys rng1 = (out, rng2)"
        by (cases "shuffle_run (buf[i := y]) ys rng1")
      ultimately show ?thesis
        using mset_replace_nth [OF i, of y] False Cons d by (subst shuffle_run.simps) simp
    qed
  qed
qed

lemma dataset_shuffle_mset:
  assumes "0 < buffer_size"
  shows "mset (fst (dataset_shuffle buffer_size ds rng)) = mset (fst (ds rng))"
proof -
  obtain xs rng' where d: "ds rng = (xs, rng')"
    by (cases "ds rng")
  have "mset (take buffer_size xs) + mset (drop buffer_size xs) = mset xs"
    by (simp add: union_code)
  moreover from assms have "take buffer_size xs = [] \<Longrightarrow> drop buffer_size xs = []"
    by simp
  then have "mset (fst (shuffle_run (take buffer_size xs) (drop buffer_size xs) rng')) =
      mset (take buffer_size xs) + mset (drop buffer_size xs)"
    by (rule shuffle_run_mset)
  ultimately show ?thesis
    using d by (simp add: dataset_shuffle_def)
qed

lemma dataset_repeat_mset:
  assumes "\<And>rng. mset (fst (ds rng)) = M"
  shows "mset (fst (dataset_repeat k ds rng)) = repeat_mset k M"
proof (induction k arbitrary: rng)
  case 0
  show ?case
    by simp
next
  case (Suc k)
  obtain xs rng1 where d: "ds rng = (xs, rng1)"
    by (cases "ds rng")
  with assms [of rng] have "mset xs = M"
    by simp
  moreover obtain ys rng2 where "dataset_repeat k ds rng1 = (ys, rng2)"
    by (cases "dataset_repeat k ds rng1")
  ultimately show ?case
    using Suc [of rng1] d by simp
qed

lemma dataset_repeat_all:
  assumes "\<And>rng. list_all P (fst (ds rng))"
  shows "list_all P (fst (dataset_repeat k ds rng))"
proof (induction k arbitrary: rng)
  case 0
  show ?case
    by simp
next
  case (Suc k)
  obtain xs rng1 where d: "ds rng = (xs, rng1)"
    by (cases "ds rng")
  with assms [of rng] have "list_all P xs"
    by simp
  moreover obtain ys rng2 where "dataset_repeat k ds rng1 = (ys, rng2)"
    by (cases "dataset_repeat k ds rng1")
  ultimately show ?case
    using Suc [of rng1] d by simp
qed

lemma dataset_repeat_length:
  assumes "\<And>rng. length (fst (ds rng)) = n"
  shows "length (fst (dataset_repeat k ds rng)) = k * n"
proof (induction k arbitrary: rng)
  case 0
  show ?case
    by simp
next
  case (Suc k)
  obtain xs rng1 where d: "ds rng = (xs, rng1)"
    by (cases "ds rng")
  with assms [of rng] have "length xs = n"
    by simp
  moreover obtain ys rng2 where "dataset_repeat k ds rng1 = (ys, rng2)"
    by (cases "dataset_repeat k ds rng1")
  ultimately show ?case
    using Suc [of rng1] d by simp
qed

lemma chunks_of_multiple:
  assumes "0 < n" and "length xs = k * n"
  shows "length (chunks_of n xs) = k \<and> list_all (\<lambda>c. length c = n) (chunks_of n xs) \<and>
    concat (chunks_of n xs) = xs"
  using assms(2)
proof (induction k arbitrary: xs)
  case 0
  then show ?case
    by (subst (1 2 3) chunks_of.simps) simp
next
  case (Suc k)
  with assms(1) have "xs \<noteq> []" and "length (drop n xs) = k * n" and "length (take n xs) = n"
    by auto
  with Suc.IH [of "drop n xs"] assms(1) show ?case
    by (simp add: chunks_of.simps [of n xs])
qed

lemma parse_protocol_buffer_label:
  assumes "parse_protocol_buffer r = Inr (image_string, lbl)"
  shows "shape lbl = [2]" and "length (buffer lbl) = 2"
  using assms
  by (auto simp: parse_protocol_buffer_def fixed_len_int64_def
      split: option.splits sum.splits feature.splits if_splits)

lemma load_record_Inr:
  assumes "parse_protocol_buffer r = Inr (image_string, lbl)" and "length image_string = 49152"
  shows "load_record r =
    Inr \<lparr>image = \<lparr>shape = [128, 128, 3], buffer = map (\<lambda>b. normalize_pixel (of_nat (unat b))) image_string\<rparr>,
         label = \<lparr>shape = [2], buffer = map (\<lambda>v. float32 (of_int v)) (buffer lbl)\<rparr>\<rparr>"
  using assms(1) convert_parsed_proto_to_input_Inr [OF assms(2) parse_protocol_buffer_label(2) [OF assms(1)]]
  by (simp add: load_record_def)

lemma unat_byte_le: "unat (b :: byte) \<le> 255"
  using unsigned_less [of b, where ?'a = nat] by simp

lemma white_record_parsed:
  "parse_protocol_buffer white_record = Inr (replicate 49152 255, \<lparr>shape = [2], buffer = [1, 0]\<rparr>)"
  unfolding white_record_def
  by (rule parse_protocol_buffer_serialized) (simp_all add: fits_int64_def)

lemma black_record_parsed:
  "parse_protocol_buffer black_record = Inr (replicate 49152 0, \<lparr>shape = [2], buffer = [0, 1]\<rparr>)"
  unfolding black_record_def
  by (rule parse_protocol_buffer_serialized) (simp_all add: fits_int64_def)

lemma mapped_records:
  assumes "files fs tfr_file = Some (TFRecords rs)"
  shows "dataset_map convert_parsed_proto_to_input
      (dataset_map parse_protocol_buffer (TFRecordDataset fs tfr_file)) rng =
    (map load_record rs, rng)"
  using assms
  by (simp add: dataset_map_def TFRecordDataset_def load_record_def comp_def)

lemma elements_before_batch_mset:
  assumes "files fs tfr_file = Some (TFRecords rs)"
  shows "mset (fst (elements_before_batch batch_size epochs fs tfr_file rng)) =
    repeat_mset (batch_size * epochs) (mset (map load_record rs))"
  unfolding elements_before_batch_def
proof (rule dataset_repeat_mset)
  fix rng' :: rng
  show "mset (fst (dataset_shuffle 1000
      (dataset_map convert_parsed_proto_to_input
        (dataset_map parse_protocol_buffer (TFRecordDataset fs tfr_file))) rng')) =
    mset (map load_record rs)"
    by (simp add: dataset_shuffle_mset mapped_records [OF assms])
qed

lemma elements_before_batch_length:
  assumes "files fs tfr_file = Some (TFRecords rs)"
  shows "length (fst (elements_before_batch batch_size epochs fs tfr_file rng)) =
    length rs * batch_size * epochs"
proof -
  have "length (fst (elements_before_batch batch_size epochs fs tfr_file rng)) =
      size (mset (fst (elements_before_batch batch_size epochs fs tfr_file rng)))"
    by simp
  also have "\<dots> = size (repeat_mset (batch_size * epochs) (mset (map load_record rs)))"
    by (simp only: elements_before_batch_mset [OF assms])
  also have "\<dots> = length rs * batch_size * epochs"
    by simp
  finally show ?thesis .
qed

lemma elements_before_batch_set:
  assumes "files fs tfr_file = Some (TFRecords rs)"
    and "x \<in> set (fst (elements_before_batch batch_size epochs fs tfr_file rng))"
  shows "x \<in> load_record ` set rs"
proof -
  from assms(2) have "x \<in># mset (fst (elements_before_batch batch_size epochs fs tfr_file rng))"
    by simp
  then have "x \<in># repeat_mset (batch_size * epochs) (mset (map load_record rs))"
    by (simp only: elements_before_batch_mset [OF assms(1)])
  then have "0 < count (repeat_mset (batch_size * epochs) (mset (map load_record rs))) x"
    by (simp only: count_greater_zero_iff)
  then have "0 < count (mset (map load_record rs)) x"
    by simp
  then have "x \<in># mset (map load_record rs)"
    by (simp only: count_greater_zero_iff)
  then show ?thesis
    by simp
qed

lemma first_error_None:
  assumes "first_error xs = None"
  shows "list_all (\<lambda>x. \<exists>v. x = Inr v) xs"
  using assms by (induction xs rule: first_error.induct) simp_all

lemma first_error_all_Inr:
  assumes "list_all (\<lambda>x. \<exists>v. x = Inr v) xs"
  shows "first_error xs = None"
  using assms by (induction xs rule: first_error.induct) simp_all

lemma first_error_Some:
  assumes "first_error xs = Some e"
  shows "Inl e \<in> set xs"
  using assms by (induction xs rule: first_error.induct) simp_all

lemma stack_shape:
  assumes "stack ts = Inr t"
  shows "shape t = length ts # shape (hd ts)" and "ts \<noteq> []"
  using assms by (auto simp: stack_def split: if_splits)

lemma stack_Inr:
  assumes "ts \<noteq> []" and "list_all (\<lambda>t. shape t = shp) ts"
  shows "\<exists>t. stack ts = Inr t"
proof -
  from assms have "shape (hd ts) = shp"
    by (cases ts) simp_all
  with assms show ?thesis
    by (simp add: stack_def)
qed

lemma make_batch_shapes:
  assumes "make_batch elems = Inr b"
    and "list_all (\<lambda>x. \<forall>s. x = Inr s \<longrightarrow> shape (image s) = si \<and> shape (label s) = sl) elems"
  shows "shape (image b) = length elems # si" and "shape (label b) = length elems # sl"
proof -
  from assms(1) have fe: "first_error elems = None"
    by (auto simp: make_batch_def split: option.splits)
  with assms(1) obtain images labels where
    i: "stack (map (\<lambda>x. image (projr x)) elems) = Inr images" and
    l: "stack (map (\<lambda>x. label (projr x)) elems) = Inr labels" and
    b: "b = \<lparr>image = images, label = labels\<rparr>"
    by (auto simp: make_batch_def split: sum.splits)
  from stack_shape [OF i] have ne: "elems \<noteq> []"
    by simp
  then obtain x rest where e: "elems = x # rest"
    by (cases elems) auto
  from first_error_None [OF fe] e obtain s where x: "x = Inr s"
    by auto
  with assms(2) e have "shape (image s) = si" and "shape (label s) = sl"
    by simp_all
  with stack_shape(1) [OF i] stack_shape(1) [OF l] b e x
  show "shape (image b) = length elems # si" and "shape (label b) = length elems # sl"
    by simp_all
qed

lemma make_batch_Inr:
  assumes "elems \<noteq> []"
    and "list_all (\<lambda>x. \<exists>s. x = Inr s \<and> shape (image s) = si \<and> shape (label s) = sl) elems"
  shows "\<exists>b. make_batch elems = Inr b"
proof -
  from assms(2) have "list_all (\<lambda>x. \<exists>v. x = Inr v) elems"
    by (auto simp: list_all_iff)
  then have fe: "first_error elems = None"
    by (rule first_error_all_Inr)
  from assms(2) have "list_all (\<lambda>t. shape t = si) (map (\<lambda>x. image (projr x)) elems)"
    and "list_all (\<lambda>t. shape t = sl) (map (\<lambda>x. label (projr x)) elems)"
    by (auto simp: list_all_iff)
  with assms(1) obtain images labels where
    "stack (map (\<lambda>x. image (projr x)) elems) = Inr images" and
    "stack (map (\<lambda>x. label (projr x)) elems) = Inr labels"
    using stack_Inr [of "map (\<lambda>x. image (projr x)) elems" si]
      stack_Inr [of "map (\<lambda>x. label (projr x)) elems" sl]
    by auto
  with fe show ?thesis
    by (simp add: make_batch_def)
qed

lemma make_batch_Inl:
  assumes "make_batch elems = Inl e" and "elems \<noteq> []"
    and "list_all (\<lambda>x. \<forall>s. x = Inr s \<longrightarrow> shape (image s) = si \<and> shape (label s) = sl) elems"
  shows "Inl e \<in> set elems"
proof (cases "first_error elems")
  case (Some e')
  with assms(1) have "e' = e"
    by (simp add: make_batch_def)
  with Some show ?thesis
    by (simp add: first_error_Some)
next
  case None
  from first_error_None [OF None] assms(3)
  have "list_all (\<lambda>x. \<exists>s. x = Inr s \<and> shape (image s) = si \<and> shape (label s) = sl) elems"
    by (auto simp: list_all_iff)
  from make_batch_Inr [OF assms(2) this] assms(1) show ?thesis
    by simp
qed

lemma set_chunks_of: "c \<in> set (chunks_of n xs) \<Longrightarrow> set c \<subseteq> set xs \<and> c \<noteq> []"
proof (induction n xs rule: chunks_of.induct)
  case (1 n xs)
  show ?case
  proof (cases "n = 0 \<or> xs = []")
    case True
    with "1.prems" show ?thesis
      by (simp add: chunks_of.simps [of n xs])
  next
    case False
    with "1.prems" have "c = take n xs \<or> c \<in> set (chunks_of n (drop n xs))"
      by (simp add: chunks_of.simps [of n xs])
    then show ?thesis
    proof
      assume "c = take n xs"
      with False show ?thesis
        by (auto dest: in_set_takeD)
    next
      assume "c \<in> set (chunks_of n (drop n xs))"
      with "1.IH" [OF False] show ?thesis
        by (auto dest: in_set_dropD)
    qed
  qed
qed

lemma batches_of_one_pass:
  assumes "files fs tfr_file = Some (TFRecords rs)" and "1 \<le> batch_size"
  shows "length (fst (dataset_batch batch_size
        (elements_before_batch batch_size epochs fs tfr_file) rng)) = length rs * epochs"
    and "list_all (\<lambda>c. length c = batch_size)
        (chunks_of batch_size (fst (elements_before_batch batch_size epochs fs tfr_file rng)))"
    and "list_all (\<lambda>x.
          (\<forall>b. x = Inr b \<longrightarrow>
             shape (image b) = [batch_size, 128, 128, 3] \<and> shape (label b) = [batch_size, 2]) \<and>
          (\<forall>e. x = Inl e \<longrightarrow> (\<exists>r \<in> set rs. load_record r = Inl e)))
        (fst (dataset_batch batch_size (elements_before_batch batch_size epochs fs tfr_file) rng))"
proof -
  obtain elems rng' where e: "elements_before_batch batch_size epochs fs tfr_file rng = (elems, rng')"
    by (cases "elements_before_batch batch_size epochs fs tfr_file rng")
  from assms(2) e have b: "fst (dataset_batch batch_size
        (elements_before_batch batch_size epochs fs tfr_file) rng) =
      map make_batch (chunks_of batch_size elems)"
    by (simp add: dataset_batch_def)
  from elements_before_batch_length [OF assms(1), of batch_size epochs rng] e
  have "length elems = (length rs * epochs) * batch_size"
    by (simp add: mult_ac)
  with assms(2) have c: "length (chunks_of batch_size elems) = length rs * epochs"
    "list_all (\<lambda>c. length c = batch_size) (chunks_of batch_size elems)"
    using chunks_of_multiple [of batch_size elems "length rs * epochs"] by simp_all
  from c(1) b show "length (fst (dataset_batch batch_size
        (elements_before_batch batch_size epochs fs tfr_file) rng)) = length rs * epochs"
    by simp
  from c(2) e show "list_all (\<lambda>c. length c = batch_size)
        (chunks_of batch_size (fst (elements_before_batch batch_size epochs fs tfr_file rng)))"
    by simp
  have loaded: "x \<in> load_record ` set rs" if "x \<in> set elems" for x
    using elements_before_batch_set [OF assms(1), of x batch_size epochs rng] that e by simp
  have "(\<forall>b. make_batch c = Inr b \<longrightarrow>
             shape (image b) = [batch_size, 128, 128, 3] \<and> shape (label b) = [batch_size, 2]) \<and>
          (\<forall>e. make_batch c = Inl e \<longrightarrow> (\<exists>r \<in> set rs. load_record r = Inl e))"
    if "c \<in> set (chunks_of batch_size elems)" for c
  proof -
    from set_chunks_of [OF that] have sub: "set c \<subseteq> set elems" and ne: "c \<noteq> []"
      by simp_all
    from c(2) that have len: "length c = batch_size"
      by (simp add: list_all_iff)
    have shapes: "list_all (\<lambda>x. \<forall>s. x = Inr s \<longrightarrow>
        shape (image s) = [128, 128, 3] \<and> shape (label s) = [2]) c"
      unfolding list_all_iff
    proof (intro ballI allI impI)
      fix x s
      assume "x \<in> set c" and "x = Inr s"
      with sub have "Inr s \<in> set elems"
        by auto
      from loaded [OF this] obtain r where "load_record r = Inr s"
        by (auto simp: image_iff)
      then show "shape (image s) = [128, 128, 3] \<and> shape (label s) = [2]"
        by (simp add: load_record_shapes)
    qed
    have "shape (image b) = [batch_size, 128, 128, 3] \<and> shape (label b) = [batch_size, 2]"
      if "make_batch c = Inr b" for b
      using make_batch_shapes [OF that shapes] len by simp
    moreover have "\<exists>r \<in> set rs. load_record r = Inl e" if "make_batch c = Inl e" for e
    proof -
      from make_batch_Inl [OF that ne shapes] sub have "Inl e \<in> set elems"
        by auto
      from loaded [OF this] show ?thesis
        by auto
    qed
    ultimately show ?thesis
      by blast
  qed
  then show "list_all (\<lambda>x.
          (\<forall>b. x = Inr b \<longrightarrow>
             shape (image b) = [batch_size, 128, 128, 3] \<and> shape (label b) = [batch_size, 2]) \<and>
          (\<forall>e. x = Inl e \<longrightarrow> (\<exists>r \<in> set rs. load_record r = Inl e)))
        (fst (dataset_batch batch_size (elements_before_batch batch_size epochs fs tfr_file) rng))"
    unfolding b list_all_iff by auto
qed

lemma load_record_white: "\<exists>s. load_record white_record = Inr s"
  using load_record_Inr [OF white_record_parsed] by simp

lemma load_record_black: "\<exists>s. load_record black_record = Inr s"
  using load_record_Inr [OF black_record_parsed] by simp




text \<open>
  Claim C8, as the code has it. \<open>read_labeled_image_list\<close> ends in an exception, and
  returns no value, exactly when the image directory is missing, or the label file is missing
  (or is no text), or some line after the two header lines has no \<open>.jpg\<close> in it, or has
  among its attribute fields (the non-empty pieces between blanks of what follows the first
  \<open>.jpg\<close>, up to the next one) one that \<open>int\<close> rejects, or has fewer than 21 such fields. Nothing is skipped and
  no default is put in: when the function returns, it returns one label for every line after
  the header. No other malformation of a line is noticed.
\<close>

theorem read_labeled_image_list_fails_exactly:
  "((\<exists>e. read_labeled_image_list fs img_dir label_txt_path = Inl e) \<longleftrightarrow>
      directories fs img_dir = None \<or>
      (\<forall>attr. files fs label_txt_path \<noteq> Some (Text attr)) \<or>
      (\<exists>attr line.
         files fs label_txt_path = Some (Text attr) \<and>
         line \<in> set (drop 2 (splitlines attr)) \<and>
         (\<not> has_substring ''.jpg'' line \<or>
          (\<exists>w \<in> set (attribute_fields line). \<exists>e. py_int w = Inl e) \<or>
          length (attribute_fields line) < 21))) \<and>
   (\<forall>paths labels.
      read_labeled_image_list fs img_dir label_txt_path = Inr (paths, labels) \<longrightarrow>
      (\<exists>attr. files fs label_txt_path = Some (Text attr) \<and>
         map label_of_line (drop 2 (splitlines attr)) = map Inr labels))"
proof -
  have "\<exists>attr. files fs label_txt_path = Some (Text attr) \<and>
         map label_of_line (drop 2 (splitlines attr)) = map Inr labels"
    if "read_labeled_image_list fs img_dir label_txt_path = Inr (paths, labels)" for paths labels
    using that by (auto simp: read_labeled_image_list_Inr)
  then show ?thesis
    by (simp only: read_labeled_image_list_Inl label_of_line_Inl) blast
qed

theorem read_labeled_image_list_fails_exactly_witness:
  "directories empty_disk IMG_DIR = None \<and>
   (\<exists>e. read_labeled_image_list empty_disk IMG_DIR LABEL_TXT_PATH = Inl e) \<and>
   files disk_without_attr_file LABEL_TXT_PATH = None \<and>
   (\<exists>e. read_labeled_image_list disk_without_attr_file IMG_DIR LABEL_TXT_PATH = Inl e) \<and>
   \<not> has_substring ''.jpg'' ''000001.png -1  1'' \<and>
   (\<exists>e. read_labeled_image_list (disk_with_attr_text attr_text_png_row) IMG_DIR LABEL_TXT_PATH = Inl e) \<and>
   length (attribute_fields ''000001.jpg -1  1'') < 21 \<and>
   (\<exists>e. read_labeled_image_list (disk_with_attr_text attr_text_short_row) IMG_DIR LABEL_TXT_PATH = Inl e) \<and>
   length (attribute_fields word_row) = 21 \<and>
   (\<exists>e. py_int ''yes'' = Inl e) \<and>
   (\<exists>e. read_labeled_image_list (disk_with_attr_text attr_text_word_row) IMG_DIR LABEL_TXT_PATH = Inl e)"
proof -
  have d: "directories empty_disk IMG_DIR = None"
    by (simp add: empty_disk_def)
  have f: "files disk_without_attr_file LABEL_TXT_PATH = None"
    by (simp add: disk_without_attr_file_def)
  have p1: "files (disk_with_attr_text attr_text_png_row) LABEL_TXT_PATH = Some (Text attr_text_png_row)"
    by (simp add: disk_with_attr_text_def)
  have p2: "''000001.png -1  1'' \<in> set (drop 2 (splitlines attr_text_png_row))"
    by (simp add: attr_text_png_row_def splitlines_def is_linebreak_def)
  have p3: "\<not> has_substring ''.jpg'' ''000001.png -1  1''"
    by simp
  have s1: "files (disk_with_attr_text attr_text_short_row) LABEL_TXT_PATH = Some (Text attr_text_short_row)"
    by (simp add: disk_with_attr_text_def)
  have s2: "''000001.jpg -1  1'' \<in> set (drop 2 (splitlines attr_text_short_row))"
    by (simp add: attr_text_short_row_def splitlines_def is_linebreak_def)
  have s3: "length (attribute_fields ''000001.jpg -1  1'') < 21"
    by (simp add: attribute_fields_def)
  have w1: "files (disk_with_attr_text attr_text_word_row) LABEL_TXT_PATH = Some (Text attr_text_word_row)"
    by (simp add: disk_with_attr_text_def)
  have w2: "word_row \<in> set (drop 2 (splitlines attr_text_word_row))"
    by (simp add: attr_text_word_row_def word_row_def splitlines_def is_linebreak_def)
  have w3: "''yes'' \<in> set (attribute_fields word_row)"
    by (simp add: attribute_fields_def word_row_def)
  have w4: "\<exists>e. py_int ''yes'' = Inl e"
    by (simp add: py_int_def str_strip_def is_space_def is_digit_def Let_def)
  have w5: "length (attribute_fields word_row) = 21"
    by (simp add: attribute_fields_def word_row_def)
  note fails = read_labeled_image_list_fails_exactly [THEN conjunct1, THEN iffD2]
  have "\<exists>e. read_labeled_image_list empty_disk IMG_DIR LABEL_TXT_PATH = Inl e"
    using d by (intro fails) simp
  moreover have "\<exists>e. read_labeled_image_list disk_without_attr_file IMG_DIR LABEL_TXT_PATH = Inl e"
    using f by (intro fails) simp
  moreover have "\<exists>e. read_labeled_image_list (disk_with_attr_text attr_text_png_row) IMG_DIR LABEL_TXT_PATH = Inl e"
    using p1 p2 p3 by (intro fails) blast
  moreover have "\<exists>e. read_labeled_image_list (disk_with_attr_text attr_text_short_row) IMG_DIR LABEL_TXT_PATH = Inl e"
    using s1 s2 s3 by (intro fails) blast
  moreover have "\<exists>e. read_labeled_image_list (disk_with_attr_text attr_text_word_row) IMG_DIR LABEL_TXT_PATH = Inl e"
    using w1 w2 w3 w4 by (intro fails) blast
  ultimately show ?thesis using d f p3 s3 w4 w5 by blast
qed

text \<open>
  The claim as written fails: a line of 21 columns that all hold 7 is no row of the attribute
  file (which has forty columns of 1 and -1), and yet it is given a label.
\<close>

theorem read_labeled_image_list_malformed_counterexample:
  "length (attribute_fields sevens_row) = 21 \<and>
   read_labeled_image_list (disk_with_attr_text attr_text_sevens) IMG_DIR LABEL_TXT_PATH =
     Inr ([''/media/dylan/DATA/img_align_celeba/000001.jpg'',
           ''/media/dylan/DATA/img_align_celeba/000002.jpg''], [[0, 1]])"
  by code_simp

text \<open>
  Claim C7. With the force-overwrite flag false and the record file on disk (in the split
  notebook: both the train and the test file), the writer cell ends without an exception and
  leaves the whole notebook as it was: the disk, hence the record file's contents, the console
  and the two names the label extraction would bind. That is the only case in which it does
  so: whenever the flag is true or a required file is missing the cell is its write path,
  which never leaves the notebook as it was.
\<close>

theorem writer_cell_skips_or_writes:
  "(writer_cell resize rank write_tfr nb = (Inr (), nb) \<longleftrightarrow>
      \<not> write_tfr \<and> os_path_isfile (disk (machine nb)) TFR_FILE) \<and>
   (writer_cell resize rank write_tfr nb = write_path resize rank nb \<longleftrightarrow>
      write_tfr \<or> \<not> os_path_isfile (disk (machine nb)) TFR_FILE) \<and>
   (split_writer_cell resize rank train_test_split write_tfr snb = (Inr (), snb) \<longleftrightarrow>
      \<not> write_tfr \<and> os_path_isfile (disk (machine snb)) TFR_TRAIN \<and>
      os_path_isfile (disk (machine snb)) TFR_TEST) \<and>
   (split_writer_cell resize rank train_test_split write_tfr snb =
      split_write_path resize rank train_test_split snb \<longleftrightarrow>
      write_tfr \<or> \<not> os_path_isfile (disk (machine snb)) TFR_TRAIN \<or>
      \<not> os_path_isfile (disk (machine snb)) TFR_TEST)"
  using write_path_leaves_trace [of resize rank nb]
    split_write_path_leaves_trace [of resize rank train_test_split snb]
  by (auto simp: writer_cell_def split_writer_cell_def)

theorem writer_cell_skips_or_writes_witness:
  "os_path_isfile (disk (machine notebook_with_records)) TFR_FILE \<and>
   writer_cell keep_size by_name False notebook_with_records = (Inr (), notebook_with_records) \<and>
   writer_cell keep_size by_name True notebook_with_records = write_path keep_size by_name notebook_with_records \<and>
   writer_cell keep_size by_name True notebook_with_records \<noteq> (Inr (), notebook_with_records) \<and>
   os_path_isfile (disk (machine split_notebook_with_records)) TFR_TRAIN \<and>
   os_path_isfile (disk (machine split_notebook_with_records)) TFR_TEST \<and>
   split_writer_cell keep_size by_name all_train False split_notebook_with_records =
     (Inr (), split_notebook_with_records) \<and>
   split_writer_cell keep_size by_name all_train True split_notebook_with_records =
     split_write_path keep_size by_name all_train split_notebook_with_records"
proof -
  have f: "os_path_isfile (disk (machine notebook_with_records)) TFR_FILE"
    by (simp add: os_path_isfile_def notebook_with_records_def)
  have g: "os_path_isfile (disk (machine split_notebook_with_records)) TFR_TRAIN"
    "os_path_isfile (disk (machine split_notebook_with_records)) TFR_TEST"
    by (simp_all add: os_path_isfile_def split_notebook_with_records_def)
  from writer_cell_skips_or_writes
    [of keep_size by_name False notebook_with_records all_train split_notebook_with_records]
    writer_cell_skips_or_writes
    [of keep_size by_name True notebook_with_records all_train split_notebook_with_records]
    f g
  show ?thesis by auto
qed



section \<open>The claims about the input pipeline\<close>

text \<open>
  Claim C3. Take a record that parses to a byte string of 128 * 128 * 3 bytes (and a label).
  Then the decode step \<open>convert_parsed_proto_to_input\<close> returns, and the image tensor it
  returns has shape 128 x 128 x 3; its element at every index is the \<open>float32\<close> value of
  \<open>v * (2. / 255) - 1\<close> for the byte \<open>v\<close> at that index, which lies in the closed interval
  from -1 to 1, is within \<open>2 ^ -21\<close> of the exact number \<open>v * (2 / 255) - 1\<close>, and is exactly -1
  for the byte 0 and exactly 1 for the byte 255.
\<close>

theorem load_record_image_normalized:
  assumes "parse_protocol_buffer r = Inr (image_string, lbl)"
    and "length image_string = 128 * 128 * 3"
  shows "\<exists>s. convert_parsed_proto_to_input (image_string, lbl) = Inr s \<and>
     load_record r = Inr s \<and>
     shape (image s) = [128, 128, 3] \<and>
     length (buffer (image s)) = 128 * 128 * 3 \<and>
     (\<forall>i < 128 * 128 * 3.
        buffer (image s) ! i = normalize_pixel (of_nat (unat (image_string ! i))) \<and>
        - 1 \<le> buffer (image s) ! i \<and> buffer (image s) ! i \<le> 1 \<and>
        \<bar>buffer (image s) ! i - (of_nat (unat (image_string ! i)) * (2 / 255) - 1)\<bar> \<le> 1 / 2 ^ 21 \<and>
        (image_string ! i = 0 \<longrightarrow> buffer (image s) ! i = - 1) \<and>
        (image_string ! i = 255 \<longrightarrow> buffer (image s) ! i = 1))"
proof -
  from assms(2) have len: "length image_string = 49152"
    by simp
  let ?s = "\<lparr>image = \<lparr>shape = [128, 128, 3],
      buffer = map (\<lambda>b. normalize_pixel (of_nat (unat b))) image_string\<rparr>,
    label = \<lparr>shape = [2], buffer = map (\<lambda>v. float32 (of_int v)) (buffer lbl)\<rparr>\<rparr>"
  have l: "load_record r = Inr ?s"
    using assms(1) len by (rule load_record_Inr)
  have px: "buffer (image ?s) ! i = normalize_pixel (of_nat (unat (image_string ! i))) \<and>
        - 1 \<le> buffer (image ?s) ! i \<and> buffer (image ?s) ! i \<le> 1 \<and>
        \<bar>buffer (image ?s) ! i - (of_nat (unat (image_string ! i)) * (2 / 255) - 1)\<bar> \<le> 1 / 2 ^ 21 \<and>
        (image_string ! i = 0 \<longrightarrow> buffer (image ?s) ! i = - 1) \<and>
        (image_string ! i = 255 \<longrightarrow> buffer (image ?s) ! i = 1)"
    if "i < 49152" for i
  proof -
    define v where "v = unat (image_string ! i)"
    have v: "v \<le> 255"
      unfolding v_def by (rule unat_byte_le)
    from that len have n: "buffer (image ?s) ! i = normalize_pixel (of_nat v)"
      by (simp add: v_def)
    have "image_string ! i = 0 \<Longrightarrow> normalize_pixel (of_nat v) = - 1"
      by (simp add: v_def normalize_pixel_0)
    moreover have "image_string ! i = 255 \<Longrightarrow> normalize_pixel (of_nat v) = 1"
      by (simp add: v_def normalize_pixel_255)
    ultimately show ?thesis
      using normalize_pixel_range [OF v] normalize_pixel_error [OF v]
      unfolding n v_def [symmetric] by blast
  qed
  show ?thesis
  proof (intro exI conjI)
    show "load_record r = Inr ?s"
      by (rule l)
    from l assms(1) show "convert_parsed_proto_to_input (image_string, lbl) = Inr ?s"
      by (simp add: load_record_def)
    show "\<forall>i < 128 * 128 * 3.
        buffer (image ?s) ! i = normalize_pixel (of_nat (unat (image_string ! i))) \<and>
        - 1 \<le> buffer (image ?s) ! i \<and> buffer (image ?s) ! i \<le> 1 \<and>
        \<bar>buffer (image ?s) ! i - (of_nat (unat (image_string ! i)) * (2 / 255) - 1)\<bar> \<le> 1 / 2 ^ 21 \<and>
        (image_string ! i = 0 \<longrightarrow> buffer (image ?s) ! i = - 1) \<and>
        (image_string ! i = 255 \<longrightarrow> buffer (image ?s) ! i = 1)"
    proof (intro allI impI)
      fix i :: nat
      assume "i < 128 * 128 * 3"
      then have "i < 49152"
        by simp
      then show "buffer (image ?s) ! i = normalize_pixel (of_nat (unat (image_string ! i))) \<and>
        - 1 \<le> buffer (image ?s) ! i \<and> buffer (image ?s) ! i \<le> 1 \<and>
        \<bar>buffer (image ?s) ! i - (of_nat (unat (image_string ! i)) * (2 / 255) - 1)\<bar> \<le> 1 / 2 ^ 21 \<and>
        (image_string ! i = 0 \<longrightarrow> buffer (image ?s) ! i = - 1) \<and>
        (image_string ! i = 255 \<longrightarrow> buffer (image ?s) ! i = 1)"
        by (rule px)
    qed
  qed (simp_all add: len)
qed

theorem load_record_image_normalized_witness:
  "parse_protocol_buffer white_record =
     Inr (replicate 49152 255, \<lparr>shape = [2], buffer = [1, 0]\<rparr>) \<and>
   length (replicate 49152 (255 :: byte)) = 128 * 128 * 3 \<and>
   (\<exists>s. load_record white_record = Inr s \<and> shape (image s) = [128, 128, 3] \<and>
      buffer (image s) = replicate 49152 1)"
proof -
  from load_record_image_normalized [OF white_record_parsed] obtain s where
    s: "load_record white_record = Inr s" "shape (image s) = [128, 128, 3]"
      "length (buffer (image s)) = 128 * 128 * 3"
    and px: "\<forall>i < 128 * 128 * 3. replicate 49152 (255 :: byte) ! i = 255 \<longrightarrow> buffer (image s) ! i = 1"
    by auto
  have "buffer (image s) = replicate 49152 1"
    using s(3) px by (auto simp: list_eq_iff_nth_eq)
  with s white_record_parsed show ?thesis
    by simp
qed

text \<open>
  Claim C4. For a record file and a batch size of at least 1, the stream that
  \<open>input_pipeline\<close> batches is cut into pieces of exactly \<open>batch_size\<close> elements, the last one
  too, since it has \<open>N * batch_size * epochs\<close> elements; the pipeline yields
  \<open>N * epochs * epochs\<close> batches; every batch drawn has the image shape
  \<open>batch_size\<close> x 128 x 128 x 3 and the label shape \<open>batch_size\<close> x 2; and a batch fails to
  be drawn only with the exception of a record of the file that does not load.
\<close>

theorem input_pipeline_full_batches:
  assumes "files fs tfr_file = Some (TFRecords rs)" and "1 \<le> batch_size"
  shows "list_all (\<lambda>c. length c = batch_size)
       (chunks_of batch_size (fst (elements_before_batch batch_size epochs fs tfr_file rng))) \<and>
     length (fst (input_pipeline batch_size epochs fs tfr_file rng)) = length rs * epochs * epochs \<and>
     (\<forall>b. Inr b \<in> set (fst (input_pipeline batch_size epochs fs tfr_file rng)) \<longrightarrow>
        shape (image b) = [batch_size, 128, 128, 3] \<and> shape (label b) = [batch_size, 2]) \<and>
     (\<forall>e. Inl e \<in> set (fst (input_pipeline batch_size epochs fs tfr_file rng)) \<longrightarrow>
        (\<exists>r \<in> set rs. load_record r = Inl e))"
proof -
  let ?P = "\<lambda>x.
          (\<forall>b. x = Inr b \<longrightarrow>
             shape (image b) = [batch_size, 128, 128, 3] \<and> shape (label b) = [batch_size, 2]) \<and>
          (\<forall>e. x = Inl e \<longrightarrow> (\<exists>r \<in> set rs. load_record r = Inl e))"
  have "list_all ?P (fst (input_pipeline batch_size epochs fs tfr_file rng))"
    unfolding input_pipeline_def
    by (rule dataset_repeat_all) (rule batches_of_one_pass(3) [OF assms])
  moreover have "length (fst (input_pipeline batch_size epochs fs tfr_file rng)) =
      epochs * (length rs * epochs)"
    unfolding input_pipeline_def
    by (rule dataset_repeat_length) (rule batches_of_one_pass(1) [OF assms])
  ultimately show ?thesis
    using batches_of_one_pass(2) [OF assms, of epochs rng]
    by (simp add: list_all_iff mult_ac)
qed

theorem input_pipeline_full_batches_witness:
  "files records_disk ''tfr/celeba_tutorial'' = Some (TFRecords [white_record, black_record]) \<and>
   length (fst (input_pipeline 2 1 records_disk ''tfr/celeba_tutorial'' [])) = 2 \<and>
   list_all (\<lambda>x. \<exists>b. x = Inr b \<and> shape (image b) = [2, 128, 128, 3] \<and> shape (label b) = [2, 2])
     (fst (input_pipeline 2 1 records_disk ''tfr/celeba_tutorial'' []))"
proof -
  have f: "files records_disk ''tfr/celeba_tutorial'' = Some (TFRecords [white_record, black_record])"
    by (simp add: records_disk_def)
  note t = input_pipeline_full_batches [OF f, of 2 1 "[]"]
  have "\<exists>b. x = Inr b \<and> shape (image b) = [2, 128, 128, 3] \<and> shape (label b) = [2, 2]"
    if "x \<in> set (fst (input_pipeline 2 1 records_disk ''tfr/celeba_tutorial'' []))" for x
  proof (cases x)
    case (Inl e)
    with t that have "load_record white_record = Inl e \<or> load_record black_record = Inl e"
      by simp
    with load_record_white load_record_black show ?thesis
      by auto
  next
    case (Inr b)
    with t that show ?thesis
      by simp
  qed
  with t f show ?thesis
    by (simp add: list_all_iff)
qed

text \<open>
  Claim C5. For a record file of \<open>N\<close> records, the stream that \<open>input_pipeline\<close> hands to
  \<open>batch\<close> has \<open>N * batch_size * epochs\<close> elements: it is \<open>batch_size * epochs\<close> passes over
  the shuffled records, so as a multiset it is the loaded records taken \<open>batch_size * epochs\<close>
  times. With at least one record it has at least \<open>batch_size * epochs\<close> elements, and every
  record of the file is read at least \<open>batch_size * epochs\<close> times.
\<close>

theorem elements_before_batch_repeats:
  assumes "files fs tfr_file = Some (TFRecords rs)"
  shows "length (fst (elements_before_batch batch_size epochs fs tfr_file rng)) =
       length rs * batch_size * epochs \<and>
     mset (fst (elements_before_batch batch_size epochs fs tfr_file rng)) =
       repeat_mset (batch_size * epochs) (mset (map load_record rs)) \<and>
     (1 \<le> length rs \<longrightarrow>
        batch_size * epochs \<le> length (fst (elements_before_batch batch_size epochs fs tfr_file rng))) \<and>
     (\<forall>r \<in> set rs.
        batch_size * epochs \<le>
          count (mset (fst (elements_before_batch batch_size epochs fs tfr_file rng))) (load_record r))"
proof -
  let ?out = "fst (elements_before_batch batch_size epochs fs tfr_file rng)"
  have len: "length ?out = length rs * batch_size * epochs"
    using assms by (rule elements_before_batch_length)
  have ms: "mset ?out = repeat_mset (batch_size * epochs) (mset (map load_record rs))"
    using assms by (rule elements_before_batch_mset)
  have "batch_size * epochs \<le> length ?out" if "1 \<le> length rs"
  proof -
    from that have "1 * (batch_size * epochs) \<le> length rs * (batch_size * epochs)"
      by (rule mult_le_mono1)
    with len show ?thesis
      by (simp add: mult.assoc)
  qed
  moreover have "batch_size * epochs \<le> count (mset ?out) (load_record r)" if "r \<in> set rs" for r
  proof -
    from that have "load_record r \<in># mset (map load_record rs)"
      by simp
    then have "1 \<le> count (mset (map load_record rs)) (load_record r)"
      by (simp only: count_greater_eq_one_iff)
    then have "batch_size * epochs * 1 \<le>
        batch_size * epochs * count (mset (map load_record rs)) (load_record r)"
      by (rule mult_le_mono2)
    then show ?thesis
      by (simp only: ms count_repeat_mset mult_1_right)
  qed
  ultimately show ?thesis
    using len ms by blast
qed

theorem elements_before_batch_repeats_witness:
  "files records_disk ''tfr/celeba_tutorial'' = Some (TFRecords [white_record, black_record]) \<and>
   length (fst (elements_before_batch 2 3 records_disk ''tfr/celeba_tutorial'' [])) = 12 \<and>
   6 \<le> count (mset (fst (elements_before_batch 2 3 records_disk ''tfr/celeba_tutorial'' [])))
     (load_record white_record)"
proof -
  have f: "files records_disk ''tfr/celeba_tutorial'' = Some (TFRecords [white_record, black_record])"
    by (simp add: records_disk_def)
  from elements_before_batch_repeats [OF f, of 2 3 "[]"] f show ?thesis
    by simp
qed





end
